theory Spec2Isabelle
  imports Complex_Main "HOL-Library.AList"
begin

section \<open>Python values used by the program\<close>

text \<open>
  A Python \<open>dict\<close> keeps its keys in insertion order and holds each key once. It is an
  association list here: iteration walks the entries in order, a store on a present key
  replaces the value in place, a store on a new key adds the entry at the end, \<open>del\<close>
  removes the entry.
\<close>

type_synonym ('k, 'v) dict = "('k \<times> 'v) list"

definition keys :: "('k, 'v) dict \<Rightarrow> 'k list" where
  "keys d = map fst d"

definition values_of :: "('k, 'v) dict \<Rightarrow> 'v list" where
  "values_of d = map snd d"

text \<open>\<open>d.get(k, default)\<close>\<close>

definition dict_get :: "('k, 'v) dict \<Rightarrow> 'k \<Rightarrow> 'v \<Rightarrow> 'v" where
  "dict_get d k dflt = (case map_of d k of None \<Rightarrow> dflt | Some v \<Rightarrow> v)"

text \<open>\<open>k in d\<close>\<close>

definition dict_in :: "'k \<Rightarrow> ('k, 'v) dict \<Rightarrow> bool" where
  "dict_in k d = (map_of d k \<noteq> None)"

text \<open>\<open>d[k] = v\<close>\<close>

definition dict_set :: "'k \<Rightarrow> 'v \<Rightarrow> ('k, 'v) dict \<Rightarrow> ('k, 'v) dict" where
  "dict_set k v d = AList.update k v d"

text \<open>\<open>del d[k]\<close> on a present key\<close>

definition dict_del :: "'k \<Rightarrow> ('k, 'v) dict \<Rightarrow> ('k, 'v) dict" where
  "dict_del k d = AList.delete k d"

datatype py_error = KeyError | OverflowError | ZeroDivisionError | ValueError

subsection \<open>Formatting an integer, as \<open>f"o{o}"\<close> does\<close>

definition digit_char :: "nat \<Rightarrow> char" where
  "digit_char d = char_of (48 + d)"

fun str_nat :: "nat \<Rightarrow> string" where
  "str_nat n = (if n < 10 then [digit_char n]
                else str_nat (n div 10) @ [digit_char (n mod 10)])"

declare str_nat.simps [simp del]

definition str_int :: "int \<Rightarrow> string" where
  "str_int i = (if i < 0 then CHR ''-'' # str_nat (nat (- i)) else str_nat (nat i))"

definition o_var :: "int \<Rightarrow> string" where
  "o_var o_id = CHR ''o'' # str_int o_id"

definition c_var :: "int \<Rightarrow> string" where
  "c_var c_id = CHR ''c'' # str_int c_id"

section \<open>Problem data\<close>

type_synonym itens = "(int, int) dict"
type_synonym assignment = "(string, int) dict"

definition pedidos :: "(int, itens) dict" where
  "pedidos =
    [(0, [(0, 3), (2, 1)]),
     (1, [(1, 1), (3, 1)]),
     (2, [(2, 1), (4, 2)]),
     (3, [(0, 1), (2, 2), (3, 1), (4, 1)]),
     (4, [(1, 1)])]"

definition corredores :: "(int, itens) dict" where
  "corredores =
    [(0, [(0, 2), (1, 1), (2, 1), (4, 1)]),
     (1, [(0, 2), (1, 1), (2, 2), (4, 1)]),
     (2, [(1, 2), (3, 1), (4, 2)]),
     (3, [(0, 2), (1, 1), (3, 1), (4, 1)]),
     (4, [(1, 1), (2, 2), (3, 1), (4, 2)])]"

definition LB :: int where "LB = 5"
definition UB :: int where "UB = 12"

section \<open>Variables and domains\<close>

text \<open>
  \<open>criar_variaveis_e_dominios\<close>: two loops, each appending the variable's name and storing
  its domain \<open>[0, 1]\<close>.
\<close>

definition add_var :: "string \<Rightarrow> string list \<times> (string, int list) dict
    \<Rightarrow> string list \<times> (string, int list) dict" where
  "add_var var_nome s = (fst s @ [var_nome], dict_set var_nome [0, 1] (snd s))"

definition criar_variaveis_e_dominios ::
    "(int, itens) dict \<Rightarrow> (int, itens) dict \<Rightarrow> string list \<times> (string, int list) dict" where
  "criar_variaveis_e_dominios peds corrs =
     fold (\<lambda>c. add_var (c_var c)) (keys corrs)
       (fold (\<lambda>o_id. add_var (o_var o_id)) (keys peds) ([], []))"

text \<open>\<open>criar_neighbors\<close>: the dict comprehension stores one entry per variable.\<close>

definition criar_neighbors :: "string list \<Rightarrow> (string, string list) dict" where
  "criar_neighbors variaveis =
     fold (\<lambda>var. dict_set var [v \<leftarrow> variaveis. v \<noteq> var]) variaveis []"

section \<open>The three global constraints\<close>

text \<open>
  In the loops \<open>for o in pedidos\<close> the source reads \<open>pedidos[o]\<close> for a key \<open>o\<close> of the
  dict it iterates: the value of that entry. The model walks the entries.
\<close>

definition total_unidades :: "assignment \<Rightarrow> (int, itens) dict \<Rightarrow> int" where
  "total_unidades asg peds =
     sum_list (map (\<lambda>(o_id, its). if dict_get asg (o_var o_id) 0 = 1
                                    then sum_list (values_of its) else 0) peds)"

definition verifica_tamanho_wave ::
    "assignment \<Rightarrow> (int, itens) dict \<Rightarrow> int \<Rightarrow> int \<Rightarrow> bool \<times> int" where
  "verifica_tamanho_wave asg peds lb ub =
     (let t = total_unidades asg peds in (lb \<le> t \<and> t \<le> ub, t))"

text \<open>
  The set \<open>itens\<close> of the capacity check, as a list without repetition. A Python set
  is iterated in no specified order; the loop below gives the same answer in any order.
\<close>

definition itens_pedidos :: "(int, itens) dict \<Rightarrow> int list" where
  "itens_pedidos peds = remdups (concat (map (\<lambda>(o_id, its). keys its) peds))"

definition demanda :: "assignment \<Rightarrow> (int, itens) dict \<Rightarrow> int \<Rightarrow> int" where
  "demanda asg peds item =
     sum_list (map (\<lambda>(o_id, its). dict_get its item 0)
                   (filter (\<lambda>(o_id, its). dict_get asg (o_var o_id) 0 = 1) peds))"

definition oferta :: "assignment \<Rightarrow> (int, itens) dict \<Rightarrow> int \<Rightarrow> int" where
  "oferta asg corrs item =
     sum_list (map (\<lambda>(c, its). dict_get its item 0)
                   (filter (\<lambda>(c, its). dict_get asg (c_var c) 0 = 1) corrs))"

text \<open>The loop \<open>for item in itens\<close>, leaving with \<open>False\<close> at the first item in excess.\<close>

fun capacidade_loop ::
    "assignment \<Rightarrow> (int, itens) dict \<Rightarrow> (int, itens) dict \<Rightarrow> int list \<Rightarrow> bool" where
  "capacidade_loop asg peds corrs [] = True"
| "capacidade_loop asg peds corrs (item # rest) =
     (if demanda asg peds item > oferta asg corrs item then False
      else capacidade_loop asg peds corrs rest)"

definition verifica_capacidade ::
    "assignment \<Rightarrow> (int, itens) dict \<Rightarrow> (int, itens) dict \<Rightarrow> bool" where
  "verifica_capacidade asg peds corrs = capacidade_loop asg peds corrs (itens_pedidos peds)"

definition verifica_corridor_selecionado ::
    "assignment \<Rightarrow> (int, itens) dict \<Rightarrow> bool \<times> int" where
  "verifica_corridor_selecionado asg corrs =
     (let num_corr = sum_list (map (\<lambda>(c, its). dict_get asg (c_var c) 0) corrs)
      in (num_corr > 0, num_corr))"

definition check_global_constraints ::
    "assignment \<Rightarrow> (int, itens) dict \<Rightarrow> (int, itens) dict \<Rightarrow> int \<Rightarrow> int
      \<Rightarrow> bool \<times> int \<times> int" where
  "check_global_constraints asg peds corrs lb ub =
     (case verifica_tamanho_wave asg peds lb ub of (ok_wave, tot) \<Rightarrow>
        if \<not> ok_wave then (False, tot, 0)
        else if \<not> verifica_capacidade asg peds corrs then (False, tot, 0)
        else (case verifica_corridor_selecionado asg corrs of (ok_corr, num_corr) \<Rightarrow>
                if \<not> ok_corr then (False, tot, num_corr)
                else (True, tot, num_corr)))"

section \<open>The constraint satisfaction problem\<close>

text \<open>
  The fields of \<open>PedidosCSP\<close>: the four that its constructor hands to the base class
  (\<open>variables\<close>, \<open>domains\<close>, \<open>neighbors\<close>, \<open>constraints\<close>) and the four it keeps itself.
\<close>

record csp =
  variables :: "string list"
  domains :: "(string, int list) dict"
  neighbors :: "(string, string list) dict"
  constraints :: "string \<Rightarrow> int \<Rightarrow> string \<Rightarrow> int \<Rightarrow> bool"
  self_pedidos :: "(int, itens) dict"
  self_corredores :: "(int, itens) dict"
  self_LB :: int
  self_UB :: int

definition dummy_constraint :: "string \<Rightarrow> int \<Rightarrow> string \<Rightarrow> int \<Rightarrow> bool" where
  "dummy_constraint A a B b = True"

definition PedidosCSP ::
    "string list \<Rightarrow> (string, int list) dict \<Rightarrow> (string, string list) dict
      \<Rightarrow> (int, itens) dict \<Rightarrow> (int, itens) dict \<Rightarrow> int \<Rightarrow> int \<Rightarrow> csp" where
  "PedidosCSP variaveis dominios neighs peds corrs lb ub =
     \<lparr>variables = variaveis, domains = dominios, neighbors = neighs,
      constraints = dummy_constraint,
      self_pedidos = peds, self_corredores = corrs, self_LB = lb, self_UB = ub\<rparr>"

definition goal_test :: "csp \<Rightarrow> assignment \<Rightarrow> bool" where
  "goal_test csp state =
     (let asg = state in
      if length asg \<noteq> length (variables csp) then False
      else fst (check_global_constraints asg (self_pedidos csp) (self_corredores csp)
                  (self_LB csp) (self_UB csp)))"

subsection \<open>The base class and the helper of the search\<close>

text \<open>
  Modelled from the spec: \<open>first\<close> of \<open>aiaa.utils\<close>, which is not among the sources. The
  search picks "the first not-yet-assigned variable in the stable variable order"; the
  result is \<open>None\<close> when the list is empty.
\<close>

definition first :: "'a list \<Rightarrow> 'a option" where
  "first xs = (case xs of [] \<Rightarrow> None | x # _ \<Rightarrow> Some x)"

text \<open>
  Modelled from the spec: \<open>CSP.choices\<close> of \<open>aiaa.csp\<close>, which is not among the sources.
  The values of a variable are those of its domain, "tried in ascending order 0 then 1":
  the entry of \<open>domains\<close> under the variable, a \<open>KeyError\<close> without one.
\<close>

definition choices :: "csp \<Rightarrow> string \<Rightarrow> py_error + int list" where
  "choices csp var =
     (case map_of (domains csp) var of None \<Rightarrow> Inl KeyError | Some vals \<Rightarrow> Inr vals)"

text \<open>
  Modelled from the spec: \<open>CSP.nconflicts\<close> of \<open>aiaa.csp\<close>, which is not among the
  sources. The "conflict check before each extension" counts the neighbours of the
  variable that are bound and whose binary constraint with the new binding fails.
\<close>

definition nconflicts :: "csp \<Rightarrow> string \<Rightarrow> int \<Rightarrow> assignment \<Rightarrow> nat" where
  "nconflicts csp var val asg =
     length [var2 \<leftarrow> dict_get (neighbors csp) var [].
               dict_in var2 asg \<and> \<not> constraints csp var val var2 (dict_get asg var2 0)]"

text \<open>
  Modelled from the spec: \<open>CSP.assign\<close> of \<open>aiaa.csp\<close>, which is not among the
  sources. The search will "extend the assignment by one binding".
\<close>

definition assign :: "string \<Rightarrow> int \<Rightarrow> assignment \<Rightarrow> assignment" where
  "assign var val asg = dict_set var val asg"

text \<open>
  Modelled from the spec: \<open>CSP.unassign\<close> of \<open>aiaa.csp\<close>, which is not among the
  sources. On backtracking the search "undoes the last binding": the binding of the
  variable is removed when there is one.
\<close>

definition unassign :: "string \<Rightarrow> assignment \<Rightarrow> assignment" where
  "unassign var asg = (if dict_in var asg then dict_del var asg else asg)"

section \<open>Exhaustive search\<close>

text \<open>
  The working assignment is one dict object that every level of the recursion mutates,
  and each solution is yielded as a copy, a new object. The store is the list of the dict
  objects allocated so far; a reference is an index into it. The search state is the store
  together with the references yielded so far, in order. A generator is run here to its
  end, as \<open>list(all_solutions(csp))\<close> does.

  The first argument bounds the depth of the recursion: \<open>None\<close> is the result of a run
  that would go deeper. A Python exception is \<open>Some (Inl e)\<close>. When no variable is left
  to pick and the assignment does not have the size of the variable list, the looked-up
  domain has no key. A reference handed to the search is one of the store: the
  properties below are stated for \<open>a < length h\<close>.
\<close>

type_synonym ref = nat
type_synonym heap = "assignment list"
type_synonym search_state = "heap \<times> ref list"

fun all_solutions ::
    "nat \<Rightarrow> csp \<Rightarrow> ref option \<Rightarrow> search_state \<Rightarrow> (py_error + search_state) option"
and for_value ::
    "nat \<Rightarrow> csp \<Rightarrow> ref \<Rightarrow> string \<Rightarrow> int list \<Rightarrow> search_state
      \<Rightarrow> (py_error + search_state) option" where
  "all_solutions 0 csp r s = None"
| "all_solutions (Suc fuel) csp r (h, out) =
     (let (a, h0) = (case r of None \<Rightarrow> (length h, h @ [[]]) | Some a \<Rightarrow> (a, h)) in
      if length (h0 ! a) = length (variables csp) then
        (if goal_test csp (h0 ! a) then Some (Inr (h0 @ [h0 ! a], out @ [length h0]))
         else Some (Inr (h0, out)))
      else
        (case first [v \<leftarrow> variables csp. \<not> dict_in v (h0 ! a)] of
           None \<Rightarrow> Some (Inl KeyError)
         | Some var \<Rightarrow>
             (case choices csp var of
                Inl e \<Rightarrow> Some (Inl e)
              | Inr vals \<Rightarrow> for_value fuel csp a var vals (h0, out))))"
| "for_value fuel csp a var [] s = Some (Inr s)"
| "for_value fuel csp a var (val # rest) (h, out) =
     (if nconflicts csp var val (h ! a) = 0 then
        (case all_solutions fuel csp (Some a) (h[a := assign var val (h ! a)], out) of
           None \<Rightarrow> None
         | Some (Inl e) \<Rightarrow> Some (Inl e)
         | Some (Inr (h', out')) \<Rightarrow>
             for_value fuel csp a var rest (h'[a := unassign var (h' ! a)], out'))
      else for_value fuel csp a var rest (h, out))"

section \<open>Objective and ranking\<close>

text \<open>
  \<open>total_unidades / num_corr\<close> divides two Python \<open>int\<close>s: the result is a \<open>float\<close>,
  the binary64 number nearest to the quotient, ties to the even significand, and an
  \<open>OverflowError\<close> when that is beyond the largest float. A float is written here as the
  real number it stands for.
\<close>

text \<open>\<open>int.bit_length\<close>: the number of binary digits.\<close>

fun bit_length :: "nat \<Rightarrow> nat" where
  "bit_length n = (if n = 0 then 0 else Suc (bit_length (n div 2)))"

declare bit_length.simps [simp del]

definition pow2 :: "int \<Rightarrow> real" where
  "pow2 e = (if 0 \<le> e then 2 ^ nat e else 1 / 2 ^ nat (- e))"

text \<open>For positive \<open>a\<close> and \<open>b\<close>, the exponent \<open>e\<close> with \<open>2^e \<le> a / b < 2^(e + 1)\<close>.\<close>

definition floor_log2 :: "nat \<Rightarrow> nat \<Rightarrow> int" where
  "floor_log2 a b =
     (let d = int (bit_length a) - int (bit_length b)
      in if pow2 d * of_nat b \<le> of_nat a then d else d - 1)"

definition round_half_even :: "real \<Rightarrow> int" where
  "round_half_even x =
     (let f = \<lfloor>x\<rfloor>; r = x - of_int f
      in if r < 1 / 2 then f else if 1 / 2 < r then f + 1
         else if even f then f else f + 1)"

text \<open>
  \<open>a / b\<close> on two \<open>int\<close>s. The significand has 53 bits, the exponent of a normal number
  is at least \<open>-1022\<close>, below it the spacing stays \<open>2^-1074\<close>.
\<close>

definition py_truediv :: "int \<Rightarrow> int \<Rightarrow> py_error + real" where
  "py_truediv a b =
     (if b = 0 then Inl ZeroDivisionError
      else if a = 0 then Inr 0
      else
        (let q = of_int a / of_int b;
             e = max (floor_log2 (nat \<bar>a\<bar>) (nat \<bar>b\<bar>)) (- 1022);
             ulp = pow2 (e - 52);
             r = of_int (round_half_even (\<bar>q\<bar> / ulp)) * ulp
         in if pow2 1024 \<le> r then Inl OverflowError else Inr (sgn q * r)))"

definition calcular_valor_objetivo :: "int \<Rightarrow> int \<Rightarrow> py_error + real" where
  "calcular_valor_objetivo tot num_corr =
     (if num_corr > 0 then py_truediv tot num_corr else Inr 0)"

text \<open>
  The builtin \<open>max(xs, key=f)\<close>: a scan that replaces the item it holds only by one whose
  key is greater; \<open>ValueError\<close> on an empty list.
\<close>

fun max_scan :: "('a \<Rightarrow> real) \<Rightarrow> 'a \<Rightarrow> 'a list \<Rightarrow> 'a" where
  "max_scan key best [] = best"
| "max_scan key best (x # xs) =
     (if key x > key best then max_scan key x xs else max_scan key best xs)"

definition py_max :: "('a \<Rightarrow> real) \<Rightarrow> 'a list \<Rightarrow> py_error + 'a" where
  "py_max key xs = (case xs of [] \<Rightarrow> Inl ValueError | x # rest \<Rightarrow> Inr (max_scan key x rest))"

section \<open>The main program\<close>

type_synonym resultado = "assignment \<times> int \<times> int \<times> real"

text \<open>The loop of \<open>main\<close> that builds \<open>resultados\<close> from the yielded solutions.\<close>

fun resultados_loop ::
    "heap \<Rightarrow> (int, itens) dict \<Rightarrow> (int, itens) dict \<Rightarrow> int \<Rightarrow> int \<Rightarrow> ref list
      \<Rightarrow> py_error + resultado list" where
  "resultados_loop h peds corrs lb ub [] = Inr []"
| "resultados_loop h peds corrs lb ub (sol # rest) =
     (let tot = snd (verifica_tamanho_wave (h ! sol) peds lb ub);
          num_corr = snd (verifica_corridor_selecionado (h ! sol) corrs)
      in case calcular_valor_objetivo tot num_corr of
           Inl e \<Rightarrow> Inl e
         | Inr obj \<Rightarrow>
             (case resultados_loop h peds corrs lb ub rest of
                Inl e \<Rightarrow> Inl e
              | Inr rs \<Rightarrow> Inr ((h ! sol, tot, num_corr, obj) # rs)))"

datatype main_result = Nenhuma_solucao | Melhor "resultado list" resultado

text \<open>The first statements of \<open>main\<close>: the problem instance built from the data.\<close>

definition csp_problem ::
    "(int, itens) dict \<Rightarrow> (int, itens) dict \<Rightarrow> int \<Rightarrow> int \<Rightarrow> csp" where
  "csp_problem peds corrs lb ub =
     (case criar_variaveis_e_dominios peds corrs of (variaveis, dominios) \<Rightarrow>
        (let neighs = criar_neighbors variaveis
         in PedidosCSP variaveis dominios neighs peds corrs lb ub))"

text \<open>
  \<open>main\<close> up to the choice of the best solution; what follows in the source prints and
  plots. The source reads the module's \<open>pedidos\<close>, \<open>corredores\<close>, \<open>LB\<close> and \<open>UB\<close>; they are
  parameters here, and \<open>main fuel pedidos corredores LB UB\<close> is the program's run.
\<close>

definition main ::
    "nat \<Rightarrow> (int, itens) dict \<Rightarrow> (int, itens) dict \<Rightarrow> int \<Rightarrow> int
      \<Rightarrow> (py_error + main_result) option" where
  "main fuel peds corrs lb ub =
     (case all_solutions fuel (csp_problem peds corrs lb ub) None ([], []) of
        None \<Rightarrow> None
      | Some (Inl e) \<Rightarrow> Some (Inl e)
      | Some (Inr (h, solucao_list)) \<Rightarrow>
          if solucao_list = [] then Some (Inr Nenhuma_solucao)
          else
            (case resultados_loop h peds corrs lb ub solucao_list of
               Inl e \<Rightarrow> Some (Inl e)
             | Inr resultados \<Rightarrow>
                 (case py_max (\<lambda>x. snd (snd (snd x))) resultados of
                    Inl e \<Rightarrow> Some (Inl e)
                  | Inr best \<Rightarrow> Some (Inr (Melhor resultados best)))))"

section \<open>Notions of the specification\<close>

text \<open>
  All lists of \<open>n\<close> values from \<open>{0, 1}\<close>, in lexicographic order, and the naive
  enumeration: every complete assignment of the variables, kept when the band check, the
  capacity check and the activity check all accept it.
\<close>

fun all_bits :: "nat \<Rightarrow> int list list" where
  "all_bits 0 = [[]]"
| "all_bits (Suc n) = map ((#) 0) (all_bits n) @ map ((#) 1) (all_bits n)"

definition feasible :: "csp \<Rightarrow> assignment \<Rightarrow> bool" where
  "feasible csp asg \<longleftrightarrow>
     fst (verifica_tamanho_wave asg (self_pedidos csp) (self_LB csp) (self_UB csp))
     \<and> verifica_capacidade asg (self_pedidos csp) (self_corredores csp)
     \<and> fst (verifica_corridor_selecionado asg (self_corredores csp))"

definition naive_enumeration :: "csp \<Rightarrow> assignment list" where
  "naive_enumeration csp =
     filter (feasible csp) (map (zip (variables csp)) (all_bits (length (variables csp))))"

text \<open>
  The complete assignments that extend the values \<open>bits\<close> of the first variables by
  \<open>m\<close> more values and pass \<open>goal_test\<close>, in lexicographic order.
\<close>

definition completions :: "csp \<Rightarrow> int list \<Rightarrow> nat \<Rightarrow> assignment list" where
  "completions csp bits m =
     filter (goal_test csp) (map (\<lambda>bs. zip (variables csp) (bits @ bs)) (all_bits m))"

text \<open>An assignment with every absent variable of a list bound to 0.\<close>

definition bind_absent :: "string list \<Rightarrow> assignment \<Rightarrow> assignment" where
  "bind_absent vars asg =
     fold (\<lambda>v d. if dict_in v d then d else dict_set v 0 d) vars asg"

text \<open>
  The sum of \<open>f\<close> over the entries of a dict that a list of values marks with 1, the
  values given in the order of the entries.
\<close>

definition selected_sum :: "('e \<Rightarrow> int) \<Rightarrow> 'e list \<Rightarrow> int list \<Rightarrow> int" where
  "selected_sum f xs bits = sum_list (map (\<lambda>(x, b). if b = 1 then f x else 0) (zip xs bits))"

text \<open>A bound on the total of every selection of orders: the orders of positive size.\<close>

definition max_total :: "(int, itens) dict \<Rightarrow> int" where
  "max_total peds = sum_list (map (\<lambda>(o_id, its). max 0 (sum_list (values_of its))) peds)"

section \<open>Evaluating variable names\<close>

lemma digit_char_eval:
  "digit_char 0 = CHR ''0''" "digit_char 1 = CHR ''1''" "digit_char 2 = CHR ''2''"
  "digit_char 3 = CHR ''3''" "digit_char 4 = CHR ''4''" "digit_char 5 = CHR ''5''"
  "digit_char 6 = CHR ''6''" "digit_char 7 = CHR ''7''" "digit_char 8 = CHR ''8''"
  "digit_char 9 = CHR ''9''"
  by code_simp+

lemma digit_char_Suc_0: "digit_char (Suc 0) = CHR ''1''"
  unfolding One_nat_def [symmetric] by (rule digit_char_eval)

lemmas var_eval =
  o_var_def c_var_def str_int_def str_nat.simps digit_char_eval digit_char_Suc_0

section \<open>Properties of the constraint checks\<close>

lemma capacidade_loop_iff:
  "capacidade_loop asg peds corrs xs \<longleftrightarrow>
     (\<forall>item \<in> set xs. demanda asg peds item \<le> oferta asg corrs item)"
  by (induction xs) auto

lemma set_itens_pedidos:
  "set (itens_pedidos peds) =
     {item. \<exists>o_id its. (o_id, its) \<in> set peds \<and> item \<in> set (keys its)}"
  by (auto simp: itens_pedidos_def)

lemma selected_iff: "dict_get asg v 0 = (1::int) \<longleftrightarrow> map_of asg v = Some 1"
  by (simp add: dict_get_def split: option.splits)

lemma demanda_sum:
  "demanda asg peds item =
     (\<Sum>(o_id, its) \<leftarrow> peds.
        if map_of asg (o_var o_id) = Some 1
        then (case map_of its item of None \<Rightarrow> 0 | Some q \<Rightarrow> q) else 0)"
  unfolding demanda_def sum_list_map_filter'
  by (rule arg_cong [where f = sum_list])
     (simp only: case_prod_unfold selected_iff, simp add: dict_get_def)

lemma oferta_sum:
  "oferta asg corrs item =
     (\<Sum>(c, its) \<leftarrow> corrs.
        if map_of asg (c_var c) = Some 1
        then (case map_of its item of None \<Rightarrow> 0 | Some q \<Rightarrow> q) else 0)"
  unfolding oferta_def sum_list_map_filter'
  by (rule arg_cong [where f = sum_list])
     (simp only: case_prod_unfold selected_iff, simp add: dict_get_def)

text \<open>
  C3. The capacity check holds exactly when, for every item that is a key of some order,
  the quantities of that item in the orders bound to 1, summed, are at most the
  capacities of that item in the corridors bound to 1, summed; an order or corridor
  without the item counts 0, and so does one that is bound to another value or not
  bound. Only the items of the orders are examined: two corridor tables whose selected
  corridors offer the same sum for every item of the orders get the same answer,
  whatever they hold for the other items.
\<close>

theorem verifica_capacidade_iff:
  "(verifica_capacidade asg peds corrs \<longleftrightarrow>
      (\<forall>item. (\<exists>o_id its. (o_id, its) \<in> set peds \<and> item \<in> fst ` set its) \<longrightarrow>
         (\<Sum>(o_id, its) \<leftarrow> peds.
            if map_of asg (o_var o_id) = Some 1
            then (case map_of its item of None \<Rightarrow> 0 | Some q \<Rightarrow> q) else 0)
         \<le> (\<Sum>(c, its) \<leftarrow> corrs.
              if map_of asg (c_var c) = Some 1
              then (case map_of its item of None \<Rightarrow> 0 | Some q \<Rightarrow> q) else 0)))
   \<and> ((\<forall>item. (\<exists>o_id its. (o_id, its) \<in> set peds \<and> item \<in> fst ` set its) \<longrightarrow>
         (\<Sum>(c, its) \<leftarrow> corrs'.
            if map_of asg (c_var c) = Some 1
            then (case map_of its item of None \<Rightarrow> 0 | Some q \<Rightarrow> q) else 0)
         = (\<Sum>(c, its) \<leftarrow> corrs.
              if map_of asg (c_var c) = Some 1
              then (case map_of its item of None \<Rightarrow> 0 | Some q \<Rightarrow> q) else 0)) \<longrightarrow>
        verifica_capacidade asg peds corrs' = verifica_capacidade asg peds corrs)"
proof -
  have items: "(\<exists>o_id its. (o_id, its) \<in> set peds \<and> item \<in> fst ` set its)
      \<longleftrightarrow> item \<in> set (itens_pedidos peds)" for item
    by (simp add: set_itens_pedidos keys_def)
  have check: "verifica_capacidade asg peds cs \<longleftrightarrow>
      (\<forall>item \<in> set (itens_pedidos peds). demanda asg peds item \<le> oferta asg cs item)" for cs
    by (simp add: verifica_capacidade_def capacidade_loop_iff)
  show ?thesis
    unfolding items check demanda_sum [symmetric] oferta_sum [symmetric]
    by auto
qed

theorem verifica_capacidade_iff_witness:
  "verifica_capacidade [(''o0'', 1), (''c0'', 1)] [(0, [(0, 1)])] [(0, [(0, 1), (7, 3)])]
     = verifica_capacidade [(''o0'', 1), (''c0'', 1)] [(0, [(0, 1)])] [(0, [(0, 1)])]
   \<and> verifica_capacidade [(''o0'', 1), (''c0'', 1)] [(0, [(0, 1)])] [(0, [(0, 1)])]
   \<and> \<not> verifica_capacidade [(''o0'', 1), (''c0'', 1)] [(0, [(0, 5)])] [(0, [(0, 1)])]"
proof -
  note one = verifica_capacidade_iff [of "[(''o0'', 1), (''c0'', 1)]" "[(0, [(0, 1)])]"
      "[(0, [(0, 1)])]" "[(0, [(0, 1), (7, 3)])]"]
  note five = verifica_capacidade_iff [of "[(''o0'', 1), (''c0'', 1)]" "[(0, [(0, 5)])]"
      "[(0, [(0, 1)])]" "[(0, [(0, 1)])]"]
  have "verifica_capacidade [(''o0'', 1), (''c0'', 1)] [(0, [(0, 1)])] [(0, [(0, 1)])]"
    using one by (simp add: var_eval)
  moreover have "verifica_capacidade [(''o0'', 1), (''c0'', 1)] [(0, [(0, 1)])]
       [(0, [(0, 1), (7, 3)])]
     = verifica_capacidade [(''o0'', 1), (''c0'', 1)] [(0, [(0, 1)])] [(0, [(0, 1)])]"
    using one by (simp add: var_eval)
  moreover have "\<not> verifica_capacidade [(''o0'', 1), (''c0'', 1)] [(0, [(0, 5)])]
       [(0, [(0, 1)])]"
    using five by (simp add: var_eval)
  ultimately show ?thesis by blast
qed



section \<open>Variable names are distinct\<close>

lemma of_char_digit_char: "d < 10 \<Longrightarrow> (of_char (digit_char d) :: nat) = 48 + d"
  by (simp add: digit_char_def)

lemma digit_char_inj: "a < 10 \<Longrightarrow> b < 10 \<Longrightarrow> digit_char a = digit_char b \<Longrightarrow> a = b"
proof -
  assume a: "a < 10" and b: "b < 10" and eq: "digit_char a = digit_char b"
  have "48 + a = (of_char (digit_char a) :: nat)"
    using a by (simp only: of_char_digit_char)
  also have "\<dots> = of_char (digit_char b)" by (simp only: eq)
  also have "\<dots> = 48 + b" using b by (simp only: of_char_digit_char)
  finally show "a = b" by simp
qed

lemma digit_char_not_minus: "d < 10 \<Longrightarrow> digit_char d \<noteq> CHR ''-''"
proof
  assume "d < 10" and "digit_char d = CHR ''-''"
  then have "(of_char (CHR ''-'') :: nat) = 48 + d"
    using of_char_digit_char [of d] by simp
  then show False by simp
qed

lemma str_nat_nonempty: "str_nat n \<noteq> []"
  by (subst str_nat.simps) simp

lemma minus_notin_str_nat: "CHR ''-'' \<notin> set (str_nat n)"
proof (induction n rule: str_nat.induct)
  case (1 n)
  show ?case
  proof (cases "n < 10")
    case True
    then show ?thesis
      using digit_char_not_minus [of n] by (subst str_nat.simps) auto
  next
    case False
    then have "CHR ''-'' \<notin> set (str_nat (n div 10))" using 1 by simp
    moreover have "digit_char (n mod 10) \<noteq> CHR ''-''"
      by (rule digit_char_not_minus) simp
    ultimately show ?thesis using False
      by (subst str_nat.simps) auto
  qed
qed

lemma str_nat_inj: "str_nat a = str_nat b \<Longrightarrow> a = b"
proof (induction a arbitrary: b rule: str_nat.induct)
  case (1 a)
  show ?case
  proof (cases "a < 10")
    case small_a: True
    show ?thesis
    proof (cases "b < 10")
      case True
      with small_a "1.prems" show ?thesis
        by (simp add: str_nat.simps [of a] str_nat.simps [of b] digit_char_inj)
    next
      case False
      with small_a "1.prems" show ?thesis
        using str_nat_nonempty [of "b div 10"]
        by (simp add: str_nat.simps [of a] str_nat.simps [of b] Cons_eq_append_conv)
    qed
  next
    case big_a: False
    show ?thesis
    proof (cases "b < 10")
      case True
      with big_a "1.prems" show ?thesis
        using str_nat_nonempty [of "a div 10"]
        by (simp add: str_nat.simps [of a] str_nat.simps [of b] append_eq_Cons_conv)
    next
      case False
      with big_a "1.prems" have tl: "str_nat (a div 10) = str_nat (b div 10)"
        and hd: "digit_char (a mod 10) = digit_char (b mod 10)"
        by (simp_all add: str_nat.simps [of a] str_nat.simps [of b])
      from tl big_a "1.IH" have "a div 10 = b div 10" by simp
      moreover from hd have "a mod 10 = b mod 10"
        by (intro digit_char_inj) simp_all
      ultimately show ?thesis
        by (metis div_mult_mod_eq)
    qed
  qed
qed

lemma str_int_inj: "str_int i = str_int j \<Longrightarrow> i = j"
proof -
  assume eq: "str_int i = str_int j"
  have no_minus: "\<And>n. hd (str_nat n) \<noteq> CHR ''-''"
    using minus_notin_str_nat str_nat_nonempty by (metis hd_in_set)
  consider "i < 0" "j < 0" | "i < 0" "\<not> j < 0" | "\<not> i < 0" "j < 0" | "\<not> i < 0" "\<not> j < 0"
    by blast
  then show ?thesis
  proof cases
    case 1
    with eq have "nat (- i) = nat (- j)" by (simp add: str_int_def str_nat_inj)
    with 1 show ?thesis by simp
  next
    case 2
    with eq have "hd (str_nat (nat j)) = CHR ''-''"
      by (simp add: str_int_def) (metis list.sel(1))
    with no_minus show ?thesis by blast
  next
    case 3
    with eq have "hd (str_nat (nat i)) = CHR ''-''"
      by (simp add: str_int_def)
    with no_minus show ?thesis by blast
  next
    case 4
    with eq have "nat i = nat j" by (simp add: str_int_def str_nat_inj)
    with 4 show ?thesis by simp
  qed
qed

lemma o_var_inj [simp]: "o_var i = o_var j \<longleftrightarrow> i = j"
  by (auto simp: o_var_def dest: str_int_inj)

lemma c_var_inj [simp]: "c_var i = c_var j \<longleftrightarrow> i = j"
  by (auto simp: c_var_def dest: str_int_inj)

lemma o_var_neq_c_var [simp]: "o_var i \<noteq> c_var j" "c_var j \<noteq> o_var i"
  by (simp_all add: o_var_def c_var_def)

section \<open>Dictionaries and the problem instance\<close>

lemma dict_in_iff: "dict_in k d \<longleftrightarrow> k \<in> set (keys d)"
  by (simp add: dict_in_def keys_def map_of_eq_None_iff)

lemma dict_set_absent: "\<not> dict_in k d \<Longrightarrow> dict_set k v d = d @ [(k, v)]"
  by (induction d) (auto simp: dict_set_def dict_in_def)

lemma dict_del_last: "\<not> dict_in k d \<Longrightarrow> dict_del k (d @ [(k, v)]) = d"
  by (induction d) (auto simp: dict_del_def dict_in_def)

lemma dict_in_set [simp]: "dict_in k (dict_set k v d)"
  by (simp add: dict_in_def dict_set_def update_conv')

lemma unassign_assign: "\<not> dict_in var asg \<Longrightarrow> unassign var (assign var val asg) = asg"
  by (simp add: unassign_def assign_def) (simp add: dict_set_absent dict_del_last)

lemma first_filter_absent:
  "first [v \<leftarrow> vs. \<not> dict_in v asg] = Some var \<Longrightarrow> \<not> dict_in var asg"
proof -
  assume "first [v \<leftarrow> vs. \<not> dict_in v asg] = Some var"
  then obtain rest where "[v \<leftarrow> vs. \<not> dict_in v asg] = var # rest"
    by (cases "[v \<leftarrow> vs. \<not> dict_in v asg]") (simp_all add: first_def)
  then have "var \<in> set [v \<leftarrow> vs. \<not> dict_in v asg]"
    by (simp only: list.set_intros)
  then show ?thesis by simp
qed

subsection \<open>The instance built by the main program\<close>

lemma fst_fold_add_var:
  "fst (fold (\<lambda>x. add_var (f x)) xs s) = fst s @ map f xs"
  by (induction xs arbitrary: s) (simp_all add: add_var_def)

lemma map_of_fold_add_var:
  "map_of (snd (fold (\<lambda>x. add_var (f x)) xs s)) v =
     (if v \<in> f ` set xs then Some [0, 1] else map_of (snd s) v)"
  by (induction xs arbitrary: s) (auto simp: add_var_def dict_set_def update_conv')

lemma variables_csp_problem:
  "variables (csp_problem peds corrs lb ub) = map o_var (keys peds) @ map c_var (keys corrs)"
proof -
  have "fst (criar_variaveis_e_dominios peds corrs)
          = map o_var (keys peds) @ map c_var (keys corrs)"
    by (simp add: criar_variaveis_e_dominios_def fst_fold_add_var)
  then show ?thesis
    by (cases "criar_variaveis_e_dominios peds corrs")
       (simp add: csp_problem_def PedidosCSP_def)
qed


lemma domains_csp_problem:
  "map_of (domains (csp_problem peds corrs lb ub)) v =
     (if v \<in> set (variables (csp_problem peds corrs lb ub)) then Some [0, 1] else None)"
proof -
  have "map_of (snd (criar_variaveis_e_dominios peds corrs)) v =
          (if v \<in> o_var ` set (keys peds) \<union> c_var ` set (keys corrs) then Some [0, 1] else None)"
    by (simp add: criar_variaveis_e_dominios_def map_of_fold_add_var)
  moreover have "domains (csp_problem peds corrs lb ub) = snd (criar_variaveis_e_dominios peds corrs)"
    by (cases "criar_variaveis_e_dominios peds corrs") (simp add: csp_problem_def PedidosCSP_def)
  ultimately show ?thesis
    by (simp add: variables_csp_problem Un_commute)
qed

lemma choices_csp_problem:
  "v \<in> set (variables (csp_problem peds corrs lb ub)) \<Longrightarrow>
     choices (csp_problem peds corrs lb ub) v = Inr [0, 1]"
  by (simp add: choices_def domains_csp_problem)

lemma constraints_csp_problem:
  "constraints (csp_problem peds corrs lb ub) = dummy_constraint"
  by (cases "criar_variaveis_e_dominios peds corrs") (simp add: csp_problem_def PedidosCSP_def)

lemma data_csp_problem [simp]:
  "self_pedidos (csp_problem peds corrs lb ub) = peds"
  "self_corredores (csp_problem peds corrs lb ub) = corrs"
  "self_LB (csp_problem peds corrs lb ub) = lb"
  "self_UB (csp_problem peds corrs lb ub) = ub"
  by (cases "criar_variaveis_e_dominios peds corrs"; simp add: csp_problem_def PedidosCSP_def)+

lemma nconflicts_csp_problem:
  "nconflicts (csp_problem peds corrs lb ub) var val asg = 0"
  by (simp add: nconflicts_def constraints_csp_problem dummy_constraint_def)

lemma distinct_variables_csp_problem:
  assumes "distinct (keys peds)" and "distinct (keys corrs)"
  shows "distinct (variables (csp_problem peds corrs lb ub))"
proof -
  have "distinct (map o_var (keys peds))" "distinct (map c_var (keys corrs))"
    using assms by (simp_all add: distinct_map inj_on_def)
  moreover have "set (map o_var (keys peds)) \<inter> set (map c_var (keys corrs)) = {}"
    by auto
  ultimately show ?thesis
    by (simp only: variables_csp_problem distinct_append)
qed

subsection \<open>Evaluation on given data\<close>

lemmas check_eval =
  naive_enumeration_def variables_csp_problem keys_def values_of_def feasible_def
  verifica_tamanho_wave_def total_unidades_def verifica_capacidade_def itens_pedidos_def
  demanda_def oferta_def verifica_corridor_selecionado_def dict_get_def var_eval

lemmas truediv_eval =
  calcular_valor_objetivo_def py_truediv_def floor_log2_def bit_length.simps pow2_def
  round_half_even_def Let_def

section \<open>The search\<close>

lemma upt_split3:
  "[n ..< n + i] @ [n + i ..< n + i + j] = [n ..< n + i + (j::nat)]"
  by (metis le_add1 upt_add_eq_append add.assoc)

lemma for_value_frame:
  assumes IH: "\<And>a h out h' out'. a < length h \<Longrightarrow>
      all_solutions fuel csp (Some a) (h, out) = Some (Inr (h', out')) \<Longrightarrow>
      \<exists>sols. h' = h @ sols \<and> out' = out @ [length h ..< length h + length sols]
            \<and> (\<forall>s \<in> set sols. goal_test csp s)"
  shows "a < length h \<Longrightarrow> \<not> dict_in var (h ! a) \<Longrightarrow>
      for_value fuel csp a var vals (h, out) = Some (Inr (h', out')) \<Longrightarrow>
      \<exists>sols. h' = h @ sols \<and> out' = out @ [length h ..< length h + length sols]
            \<and> (\<forall>s \<in> set sols. goal_test csp s)"
proof (induction vals arbitrary: h out)
  case Nil
  then show ?case by simp
next
  case (Cons val rest)
  show ?case
  proof (cases "nconflicts csp var val (h ! a) = 0")
    case False
    with Cons.prems have "for_value fuel csp a var rest (h, out) = Some (Inr (h', out'))"
      by simp
    with Cons.IH Cons.prems(1,2) show ?thesis by blast
  next
    case True
    let ?h1 = "h[a := assign var val (h ! a)]"
    from True Cons.prems(3) obtain h2 out2 where
      rec: "all_solutions fuel csp (Some a) (?h1, out) = Some (Inr (h2, out2))" and
      loop: "for_value fuel csp a var rest (h2[a := unassign var (h2 ! a)], out2)
               = Some (Inr (h', out'))"
      by (auto split: option.splits sum.splits prod.splits)
    from Cons.prems(1) have "a < length ?h1" by simp
    from IH [OF this rec] obtain sols1 where
      h2: "h2 = ?h1 @ sols1" and
      out2: "out2 = out @ [length ?h1 ..< length ?h1 + length sols1]" and
      ok1: "\<forall>s \<in> set sols1. goal_test csp s"
      by blast
    from Cons.prems(1) have "h2 ! a = assign var val (h ! a)"
      by (simp add: h2 nth_append)
    with Cons.prems(2) have "unassign var (h2 ! a) = h ! a"
      by (simp add: unassign_assign)
    with Cons.prems(1) have restored: "h2[a := unassign var (h2 ! a)] = h @ sols1"
      by (simp add: h2 list_update_append1)
    have "a < length (h @ sols1)" "\<not> dict_in var ((h @ sols1) ! a)"
      using Cons.prems(1,2) by (simp_all add: nth_append)
    from Cons.IH [OF this] loop restored obtain sols2 where
      h': "h' = (h @ sols1) @ sols2" and
      out': "out' = out2 @ [length (h @ sols1) ..< length (h @ sols1) + length sols2]" and
      ok2: "\<forall>s \<in> set sols2. goal_test csp s"
      by auto
    have "out' = out @ [length h ..< length h + length (sols1 @ sols2)]"
      using out' out2 upt_split3 [of "length h" "length sols1" "length sols2"]
      by (simp add: add.assoc)
    with h' ok1 ok2 show ?thesis
      by (intro exI [of _ "sols1 @ sols2"]) auto
  qed
qed

lemma all_solutions_frame:
  "a < length h \<Longrightarrow> all_solutions fuel csp (Some a) (h, out) = Some (Inr (h', out')) \<Longrightarrow>
     \<exists>sols. h' = h @ sols \<and> out' = out @ [length h ..< length h + length sols]
           \<and> (\<forall>s \<in> set sols. goal_test csp s)"
proof (induction fuel arbitrary: a h out h' out')
  case 0
  then show ?case by simp
next
  case (Suc fuel)
  show ?case
  proof (cases "length (h ! a) = length (variables csp)")
    case leaf: True
    show ?thesis
    proof (cases "goal_test csp (h ! a)")
      case True
      with leaf Suc.prems(2) have "h' = h @ [h ! a]" "out' = out @ [length h]"
        by simp_all
      with True show ?thesis
        by (intro exI [of _ "[h ! a]"]) simp
    next
      case False
      with leaf Suc.prems(2) have "h' = h" "out' = out" by simp_all
      then show ?thesis
        by (intro exI [of _ "[]"]) simp
    qed
  next
    case inner: False
    with Suc.prems(2) obtain var vals where
      var: "first [v \<leftarrow> variables csp. \<not> dict_in v (h ! a)] = Some var" and
      loop: "for_value fuel csp a var vals (h, out) = Some (Inr (h', out'))"
      by (auto split: option.splits sum.splits)
    from var have "\<not> dict_in var (h ! a)" by (rule first_filter_absent)
    with Suc.prems(1) loop show ?thesis
      using for_value_frame [of fuel csp a h var vals out h' out'] Suc.IH by blast
  qed
qed


subsection \<open>The search from a prefix of the variables\<close>

lemma zip_snoc:
  "length ys < length xs \<Longrightarrow> zip xs (ys @ [v]) = zip xs ys @ [(xs ! length ys, v)]"
proof (induction xs arbitrary: ys)
  case Nil
  then show ?case by simp
next
  case (Cons x xs)
  then show ?case by (cases ys) simp_all
qed

lemma keys_zip: "keys (zip xs ys) = take (length ys) xs"
  by (simp add: keys_def map_fst_zip_take min_def)

lemma filter_absent_prefix:
  assumes "distinct xs"
  shows "[v \<leftarrow> xs. v \<notin> set (take k xs)] = drop k xs"
proof -
  have "distinct (take k xs @ drop k xs)" using assms by simp
  then have disj: "set (take k xs) \<inter> set (drop k xs) = {}"
    by (simp only: distinct_append)
  have "[v \<leftarrow> xs. v \<notin> set (take k xs)] =
          [v \<leftarrow> take k xs. v \<notin> set (take k xs)] @ [v \<leftarrow> drop k xs. v \<notin> set (take k xs)]"
    by (metis append_take_drop_id filter_append)
  moreover have "[v \<leftarrow> take k xs. v \<notin> set (take k xs)] = []"
    by (simp add: filter_empty_conv)
  moreover have "[v \<leftarrow> drop k xs. v \<notin> set (take k xs)] = drop k xs"
    using disj by (auto simp: filter_id_conv)
  ultimately show ?thesis by simp
qed

lemma first_unassigned:
  assumes "distinct vs" and "length bits < length vs"
  shows "first [v \<leftarrow> vs. \<not> dict_in v (zip vs bits)] = Some (vs ! length bits)"
proof -
  have "[v \<leftarrow> vs. \<not> dict_in v (zip vs bits)] = drop (length bits) vs"
    using filter_absent_prefix [OF assms(1)] by (simp add: dict_in_iff keys_zip)
  also have "\<dots> = vs ! length bits # drop (Suc (length bits)) vs"
    using assms(2) by (simp add: Cons_nth_drop_Suc)
  finally show ?thesis by (simp add: first_def)
qed

lemma assign_next:
  assumes "distinct vs" and "length bits < length vs"
  shows "assign (vs ! length bits) v (zip vs bits) = zip vs (bits @ [v])"
    and "\<not> dict_in (vs ! length bits) (zip vs bits)"
proof -
  have "vs ! length bits \<notin> set (take (length bits) vs)"
    using assms by (metis first_unassigned first_filter_absent dict_in_iff keys_zip)
  then show absent: "\<not> dict_in (vs ! length bits) (zip vs bits)"
    by (simp add: dict_in_iff keys_zip)
  then show "assign (vs ! length bits) v (zip vs bits) = zip vs (bits @ [v])"
    using assms(2) by (simp add: assign_def dict_set_absent zip_snoc)
qed

lemma completions_0:
  "completions csp bits 0 =
     (if goal_test csp (zip (variables csp) bits) then [zip (variables csp) bits] else [])"
  by (simp add: completions_def)

lemma completions_Suc:
  "completions csp bits (Suc m) = completions csp (bits @ [0]) m @ completions csp (bits @ [1]) m"
  by (simp add: completions_def comp_def)

lemma all_solutions_exact:
  assumes D: "distinct (variables csp)"
    and C: "\<And>v. v \<in> set (variables csp) \<Longrightarrow> choices csp v = Inr [0, 1]"
    and N: "\<And>var val asg. nconflicts csp var val asg = 0"
  shows "length bits + m = length (variables csp) \<Longrightarrow> a < length h \<Longrightarrow>
      h ! a = zip (variables csp) bits \<Longrightarrow> m < fuel \<Longrightarrow>
      all_solutions fuel csp (Some a) (h, out) =
        Some (Inr (h @ completions csp bits m,
                   out @ [length h ..< length h + length (completions csp bits m)]))"
proof (induction m arbitrary: bits h out fuel)
  case 0
  then obtain f where fuel: "fuel = Suc f" by (cases fuel) simp_all
  from 0 have "length (h ! a) = length (variables csp)" by simp
  with 0 show ?case
    by (simp add: fuel completions_0)
next
  case (Suc m)
  let ?vs = "variables csp"
  let ?var = "?vs ! length bits"
  from Suc.prems obtain f where fuel: "fuel = Suc f" and f: "m < f"
    by (cases fuel) simp_all
  from Suc.prems have short: "length bits < length ?vs" by simp
  have step: "for_value f csp a ?var (v # rest) (g, ou) =
      for_value f csp a ?var rest
        (g @ completions csp (bits @ [v]) m,
         ou @ [length g ..< length g + length (completions csp (bits @ [v]) m)])"
    if g: "a < length g" "g ! a = zip ?vs bits" for v rest g ou
  proof -
    let ?g1 = "g[a := assign ?var v (g ! a)]"
    have asg: "assign ?var v (g ! a) = zip ?vs (bits @ [v])"
      using assign_next(1) [OF D short] g by simp
    have "length (bits @ [v]) + m = length ?vs" using Suc.prems(1) by simp
    moreover have "a < length ?g1" using g by simp
    moreover have "?g1 ! a = zip ?vs (bits @ [v])" using g asg by simp
    ultimately have rec: "all_solutions f csp (Some a) (?g1, ou) =
        Some (Inr (?g1 @ completions csp (bits @ [v]) m,
                   ou @ [length ?g1 ..< length ?g1 + length (completions csp (bits @ [v]) m)]))"
      using f by (rule Suc.IH)
    have "unassign ?var ((?g1 @ completions csp (bits @ [v]) m) ! a) = g ! a"
      using g assign_next(2) [OF D short] by (simp add: nth_append unassign_assign)
    then have "(?g1 @ completions csp (bits @ [v]) m)
                 [a := unassign ?var ((?g1 @ completions csp (bits @ [v]) m) ! a)]
               = g @ completions csp (bits @ [v]) m"
      using g list_update_id [of g a] by (simp add: list_update_append1)
    with rec show ?thesis
      by (simp add: N)
  qed
  have "length (h ! a) \<noteq> length ?vs" using Suc.prems by simp
  moreover have "first [v \<leftarrow> ?vs. \<not> dict_in v (h ! a)] = Some ?var"
    using first_unassigned [OF D short] Suc.prems(3) by simp
  moreover have "choices csp ?var = Inr [0, 1]"
    using short by (intro C) simp
  ultimately have "all_solutions fuel csp (Some a) (h, out) =
      for_value f csp a ?var [0, 1] (h, out)"
    by (simp add: fuel)
  also have "\<dots> = for_value f csp a ?var [1]
      (h @ completions csp (bits @ [0]) m,
       out @ [length h ..< length h + length (completions csp (bits @ [0]) m)])"
    using Suc.prems by (intro step) simp_all
  also have "\<dots> = for_value f csp a ?var []
      ((h @ completions csp (bits @ [0]) m) @ completions csp (bits @ [1]) m,
       (out @ [length h ..< length h + length (completions csp (bits @ [0]) m)])
         @ [length (h @ completions csp (bits @ [0]) m) ..<
            length (h @ completions csp (bits @ [0]) m) + length (completions csp (bits @ [1]) m)])"
    using Suc.prems by (intro step) (simp_all add: nth_append)
  also have "\<dots> = Some (Inr (h @ completions csp bits (Suc m),
      out @ [length h ..< length h + length (completions csp bits (Suc m))]))"
    using upt_split3 [of "length h" "length (completions csp (bits @ [0]) m)"
        "length (completions csp (bits @ [1]) m)"]
    by (simp add: completions_Suc add.assoc)
  finally show ?case .
qed

subsection \<open>The run that the main program starts\<close>

lemma goal_test_iff:
  "goal_test csp asg \<longleftrightarrow> length asg = length (variables csp) \<and> feasible csp asg"
  by (simp add: goal_test_def feasible_def check_global_constraints_def Let_def
      split: prod.splits)

lemma set_all_bits: "set (all_bits n) = {bs. length bs = n \<and> set bs \<subseteq> {0, 1}}"
proof (induction n)
  case 0
  then show ?case by auto
next
  case (Suc n)
  show ?case
  proof (intro equalityI subsetI)
    fix bs assume "bs \<in> set (all_bits (Suc n))"
    then show "bs \<in> {bs. length bs = Suc n \<and> set bs \<subseteq> {0, 1}}"
      using Suc by auto
  next
    fix bs :: "int list"
    assume "bs \<in> {bs. length bs = Suc n \<and> set bs \<subseteq> {0, 1}}"
    then obtain b rest where "bs = b # rest" "length rest = n" "set rest \<subseteq> {0, 1}" "b = 0 \<or> b = 1"
      by (cases bs) auto
    then show "bs \<in> set (all_bits (Suc n))"
      using Suc by auto
  qed
qed

lemma length_all_bits: "length (all_bits n) = 2 ^ n"
  by (induction n) simp_all

lemma completions_naive:
  "completions csp [] (length (variables csp)) = naive_enumeration csp"
proof -
  have "filter (goal_test csp) (map (zip (variables csp)) (all_bits (length (variables csp))))
      = filter (feasible csp) (map (zip (variables csp)) (all_bits (length (variables csp))))"
    by (rule filter_cong) (auto simp: goal_test_iff set_all_bits)
  then show ?thesis
    by (simp add: completions_def naive_enumeration_def)
qed

lemma set_naive_enumeration:
  "set (naive_enumeration csp) =
     {asg. keys asg = variables csp \<and> set (values_of asg) \<subseteq> {0, 1} \<and> feasible csp asg}"
proof -
  have "set (map (zip (variables csp)) (all_bits (length (variables csp))))
      = {asg. keys asg = variables csp \<and> set (values_of asg) \<subseteq> {0, 1}}" (is "?L = ?R")
  proof (intro equalityI subsetI)
    fix asg assume "asg \<in> ?L"
    then obtain bs where "asg = zip (variables csp) bs" "length bs = length (variables csp)"
      "set bs \<subseteq> {0, 1}"
      by (auto simp: set_all_bits)
    then show "asg \<in> ?R"
      by (simp add: keys_def values_of_def flip: set_map)
  next
    fix asg assume "asg \<in> ?R"
    then have k: "map fst asg = variables csp" and v: "set (values_of asg) \<subseteq> {0, 1}"
      by (simp_all add: keys_def)
    have "zip (map fst asg) (map snd asg) = asg" by (rule zip_map_fst_snd)
    then have "asg = zip (variables csp) (values_of asg)"
      by (simp add: k values_of_def)
    moreover have "length (values_of asg) = length (variables csp)"
      using k by (metis length_map values_of_def)
    moreover note v
    ultimately have "asg = zip (variables csp) (values_of asg)"
      "length (values_of asg) = length (variables csp)" "set (values_of asg) \<subseteq> {0, 1}"
      by blast+
    then show "asg \<in> ?L"
      unfolding set_map set_all_bits by blast
  qed
  then show ?thesis
    by (auto simp: naive_enumeration_def)
qed

lemma nth_suffix: "map ((!) (xs @ ys)) [length xs ..< length xs + length ys] = ys"
  by (rule nth_equalityI) (simp_all add: nth_append)

lemma all_solutions_run:
  assumes "distinct (keys peds)" and "distinct (keys corrs)"
    and "length peds + length corrs < fuel"
  shows "all_solutions fuel (csp_problem peds corrs lb ub) None ([], []) =
     Some (Inr ([[]] @ naive_enumeration (csp_problem peds corrs lb ub),
                [1 ..< 1 + length (naive_enumeration (csp_problem peds corrs lb ub))]))"
proof -
  let ?csp = "csp_problem peds corrs lb ub"
  from assms(3) obtain f where fuel: "fuel = Suc f" by (cases fuel) simp_all
  have n: "length (variables ?csp) = length peds + length corrs"
    by (simp add: variables_csp_problem keys_def)
  have "all_solutions fuel ?csp None ([], []) = all_solutions fuel ?csp (Some 0) ([[]], [])"
    by (simp add: fuel)
  also have "\<dots> = Some (Inr ([[]] @ completions ?csp [] (length (variables ?csp)),
      [] @ [length [[]::assignment] ..<
            length [[]::assignment] + length (completions ?csp [] (length (variables ?csp)))]))"
    using assms(3)
    by (intro all_solutions_exact distinct_variables_csp_problem assms(1,2)
        choices_csp_problem nconflicts_csp_problem) (simp_all add: n)
  finally show ?thesis
    by (simp add: completions_naive)
qed

section \<open>Soundness and completeness of the search\<close>

lemma feasible_check:
  assumes "feasible csp asg"
  shows "check_global_constraints asg (self_pedidos csp) (self_corredores csp)
           (self_LB csp) (self_UB csp)
         = (True, total_unidades asg (self_pedidos csp),
            snd (verifica_corridor_selecionado asg (self_corredores csp)))"
    and "self_LB csp \<le> total_unidades asg (self_pedidos csp)"
    and "total_unidades asg (self_pedidos csp) \<le> self_UB csp"
    and "0 < snd (verifica_corridor_selecionado asg (self_corredores csp))"
  using assms
  by (simp_all add: feasible_def check_global_constraints_def verifica_tamanho_wave_def
      verifica_corridor_selecionado_def Let_def)

lemma run_yields:
  assumes "all_solutions fuel csp None ([], []) =
     Some (Inr ([[]] @ sols, [1 ..< 1 + length sols]))"
    and "all_solutions fuel csp None ([], []) = Some (Inr (h, out))"
  shows "map ((!) h) out = sols"
proof -
  from assms have "h = [[]] @ sols" "out = [length [[]::assignment] ..< length [[]::assignment] + length sols]"
    by simp_all
  then show ?thesis by (simp only: nth_suffix)
qed

text \<open>
  C1. For all orders, corridors and bounds, the run of the search that the main program
  starts returns, and every assignment it yields binds exactly the variables of the
  problem and is accepted when checked again: \<open>check_global_constraints\<close> gives \<open>True\<close>
  with a total between the bounds and a positive corridor count.
\<close>

theorem all_solutions_sound:
  assumes "distinct (keys peds)" and "distinct (keys corrs)"
    and "length peds + length corrs < fuel"
  shows "\<exists>h out. all_solutions fuel (csp_problem peds corrs lb ub) None ([], [])
            = Some (Inr (h, out))
          \<and> (\<forall>asg \<in> set (map ((!) h) out).
               keys asg = variables (csp_problem peds corrs lb ub)
               \<and> (\<exists>tot num. check_global_constraints asg peds corrs lb ub = (True, tot, num)
                     \<and> lb \<le> tot \<and> tot \<le> ub \<and> 0 < num))"
proof -
  let ?csp = "csp_problem peds corrs lb ub"
  let ?h = "[[]] @ naive_enumeration ?csp"
  let ?out = "[1 ..< 1 + length (naive_enumeration ?csp)]"
  have run: "all_solutions fuel ?csp None ([], []) = Some (Inr (?h, ?out))"
    using assms by (rule all_solutions_run)
  have yields: "map ((!) ?h) ?out = naive_enumeration ?csp"
    using run run by (rule run_yields)
  have "keys asg = variables ?csp
      \<and> (\<exists>tot num. check_global_constraints asg peds corrs lb ub = (True, tot, num)
            \<and> lb \<le> tot \<and> tot \<le> ub \<and> 0 < num)"
    if "asg \<in> set (naive_enumeration ?csp)" for asg
  proof -
    from that have "keys asg = variables ?csp" and f: "feasible ?csp asg"
      by (simp_all add: set_naive_enumeration)
    with feasible_check [OF f] show ?thesis by simp
  qed
  with run yields show ?thesis by (intro exI [of _ ?h] exI [of _ ?out]) simp
qed

theorem all_solutions_sound_witness:
  "\<exists>h out. all_solutions 3 (csp_problem [(0, [(0, 1)])] [(0, [(0, 1)])] 1 1) None ([], [])
            = Some (Inr (h, out))
          \<and> (\<forall>asg \<in> set (map ((!) h) out).
               keys asg = variables (csp_problem [(0, [(0, 1)])] [(0, [(0, 1)])] 1 1)
               \<and> (\<exists>tot num. check_global_constraints asg [(0, [(0, 1)])] [(0, [(0, 1)])] 1 1
                       = (True, tot, num)
                     \<and> 1 \<le> tot \<and> tot \<le> 1 \<and> 0 < num))"
  using all_solutions_sound [of "[(0, [(0, 1)])]" "[(0, [(0, 1)])]" 3 1 1]
  by (simp add: keys_def)

text \<open>
  C2. For all orders, corridors and bounds, the assignments yielded by that run are the
  naive enumeration, in its order: all \<open>2^(n + m)\<close> complete assignments of 0 and 1 to the
  \<open>n\<close> order variables and \<open>m\<close> corridor variables, kept when the three checks accept them.
  The binary constraint reports no conflict for any binding, so no branch is pruned.
\<close>

theorem all_solutions_complete:
  assumes "distinct (keys peds)" and "distinct (keys corrs)"
    and "length peds + length corrs < fuel"
  shows "\<exists>h out. all_solutions fuel (csp_problem peds corrs lb ub) None ([], [])
            = Some (Inr (h, out))
          \<and> map ((!) h) out = naive_enumeration (csp_problem peds corrs lb ub)
          \<and> set (map ((!) h) out) =
              {asg. keys asg = variables (csp_problem peds corrs lb ub)
                    \<and> set (values_of asg) \<subseteq> {0, 1}
                    \<and> feasible (csp_problem peds corrs lb ub) asg}
          \<and> length (all_bits (length (variables (csp_problem peds corrs lb ub))))
              = 2 ^ (length peds + length corrs)
          \<and> (\<forall>var val asg. nconflicts (csp_problem peds corrs lb ub) var val asg = 0)"
proof -
  let ?csp = "csp_problem peds corrs lb ub"
  let ?h = "[[]] @ naive_enumeration ?csp"
  let ?out = "[1 ..< 1 + length (naive_enumeration ?csp)]"
  have run: "all_solutions fuel ?csp None ([], []) = Some (Inr (?h, ?out))"
    using assms by (rule all_solutions_run)
  have yields: "map ((!) ?h) ?out = naive_enumeration ?csp"
    using run run by (rule run_yields)
  have "length (variables ?csp) = length peds + length corrs"
    by (simp add: variables_csp_problem keys_def)
  then have "length (all_bits (length (variables ?csp))) = 2 ^ (length peds + length corrs)"
    by (simp add: length_all_bits)
  with run yields show ?thesis
    by (intro exI [of _ ?h] exI [of _ ?out])
       (simp only: set_naive_enumeration nconflicts_csp_problem simp_thms)
qed

theorem all_solutions_complete_witness:
  "\<exists>h out. all_solutions 3 (csp_problem [(0, [(0, 1)])] [(0, [(0, 1)])] 1 1) None ([], [])
            = Some (Inr (h, out))
          \<and> map ((!) h) out = naive_enumeration (csp_problem [(0, [(0, 1)])] [(0, [(0, 1)])] 1 1)"
  using all_solutions_complete [of "[(0, [(0, 1)])]" "[(0, [(0, 1)])]" 3 1 1]
  by (simp add: keys_def) blast

section \<open>The working assignment after the search\<close>

lemma all_solutions_default:
  "all_solutions fuel csp None (h, out) = all_solutions fuel csp (Some (length h)) (h @ [[]], out)"
  by (cases fuel) simp_all

text \<open>
  C10. When the search returns, the dict object it worked on holds its initial contents
  again: the dict that was passed in, or the empty dict that the search created. Every
  object that existed before the search is unchanged, the solutions yielded earlier
  among them. The solutions yielded are new objects, none of them the working dict, and
  each still passes \<open>goal_test\<close> at the end: no later step of the search has touched it.
\<close>

theorem all_solutions_restores:
  assumes "case r of Some a \<Rightarrow> a < length h | None \<Rightarrow> True"
    and "all_solutions fuel csp r (h, out) = Some (Inr (h', out'))"
  shows "let h0 = (case r of Some a \<Rightarrow> h | None \<Rightarrow> h @ [[]]);
             a = (case r of Some a \<Rightarrow> a | None \<Rightarrow> length h)
         in h' ! a = h0 ! a
            \<and> take (length h0) h' = h0
            \<and> out' = out @ [length h0 ..< length h']
            \<and> (\<forall>s \<in> set [length h0 ..< length h']. s \<noteq> a \<and> goal_test csp (h' ! s))"
proof -
  define h0 where "h0 = (case r of Some a \<Rightarrow> h | None \<Rightarrow> h @ [[]])"
  define a where "a = (case r of Some a \<Rightarrow> a | None \<Rightarrow> length h)"
  have a: "a < length h0"
    using assms(1) by (cases r) (simp_all add: h0_def a_def)
  have "all_solutions fuel csp (Some a) (h0, out) = Some (Inr (h', out'))"
    using assms(2) by (cases r) (simp_all add: h0_def a_def all_solutions_default)
  from all_solutions_frame [OF a this] obtain sols where
    h': "h' = h0 @ sols" and out': "out' = out @ [length h0 ..< length h0 + length sols]"
    and ok: "\<forall>s \<in> set sols. goal_test csp s"
    by blast
  have "h' ! a = h0 ! a" using a by (simp add: h' nth_append)
  moreover have "take (length h0) h' = h0" by (simp add: h')
  moreover have "out' = out @ [length h0 ..< length h']" by (simp add: h' out')
  moreover have "s \<noteq> a \<and> goal_test csp (h' ! s)" if "s \<in> set [length h0 ..< length h']" for s
  proof -
    from that have "length h0 \<le> s" "s - length h0 < length sols" by (auto simp: h')
    then have "h' ! s \<in> set sols" by (simp add: h' nth_append)
    with ok a \<open>length h0 \<le> s\<close> show ?thesis by auto
  qed
  ultimately show ?thesis
    unfolding Let_def h0_def [symmetric] a_def [symmetric] by blast
qed

theorem all_solutions_restores_witness:
  "\<exists>h' out'. all_solutions 3 (csp_problem [(0, [(0, 1)])] [(0, [(0, 1)])] 1 1) None ([], [])
       = Some (Inr (h', out'))
     \<and> h' ! 0 = [] \<and> take 1 h' = [[]] \<and> out' = [1 ..< length h']"
proof -
  let ?csp = "csp_problem [(0, [(0, 1)])] [(0, [(0, 1)])] 1 1"
  have "all_solutions 3 ?csp None ([], []) =
     Some (Inr ([[]] @ naive_enumeration ?csp, [1 ..< 1 + length (naive_enumeration ?csp)]))"
    by (rule all_solutions_run) (simp_all add: keys_def)
  with all_solutions_restores [where r = None and h = "[]" and fuel = 3 and csp = ?csp
      and out = "[]" and h' = "[[]] @ naive_enumeration ?csp"
      and out' = "[1 ..< 1 + length (naive_enumeration ?csp)]"]
  show ?thesis by (simp add: Let_def)
qed

section \<open>An empty result\<close>

lemma total_le_max_total: "total_unidades asg peds \<le> max_total peds"
  unfolding total_unidades_def max_total_def
  by (rule sum_list_mono) (auto split: prod.splits)

text \<open>
  C6. When the lower bound is above the total of every selection of orders, the search
  yields nothing and the main program reports that there is no feasible solution: it
  returns before any result is built and before any division.
\<close>

theorem main_no_solution:
  assumes "distinct (keys peds)" and "distinct (keys corrs)"
    and "length peds + length corrs < fuel"
    and "\<forall>asg. total_unidades asg peds < lb"
  shows "main fuel peds corrs lb ub = Some (Inr Nenhuma_solucao)
       \<and> all_solutions fuel (csp_problem peds corrs lb ub) None ([], []) = Some (Inr ([[]], []))"
proof -
  let ?csp = "csp_problem peds corrs lb ub"
  have "\<not> feasible ?csp asg" for asg
    using assms(4) by (auto simp: feasible_def verifica_tamanho_wave_def Let_def not_le)
  then have "naive_enumeration ?csp = []"
    by (simp add: naive_enumeration_def filter_empty_conv)
  with all_solutions_run [OF assms(1-3), of lb ub]
  have "all_solutions fuel ?csp None ([], []) = Some (Inr ([[]], []))" by simp
  then show ?thesis by (simp add: main_def)
qed

theorem main_no_solution_witness:
  "main 3 [(0, [(0, 1)])] [(0, [(0, 1)])] 5 12 = Some (Inr Nenhuma_solucao)"
proof -
  have "total_unidades asg [(0, [(0, 1)])] < 5" for asg
    using total_le_max_total [of asg "[(0, [(0, 1)])]"]
    by (simp add: max_total_def values_of_def)
  with main_no_solution [of "[(0, [(0, 1)])]" "[(0, [(0, 1)])]" 3 5 12]
  show ?thesis by (simp add: keys_def)
qed

section \<open>Partial assignments\<close>

lemma dict_get_set_absent:
  "\<not> dict_in v d \<Longrightarrow> dict_get (dict_set v 0 d) k 0 = dict_get d k (0::int)"
  by (simp add: dict_get_def dict_set_def dict_in_def update_conv')

lemma dict_get_bind_absent: "dict_get (bind_absent vars asg) k 0 = dict_get asg k 0"
  unfolding bind_absent_def
  by (induction vars arbitrary: asg) (simp_all add: dict_get_set_absent)

lemma dict_in_bind_absent: "v \<in> set vars \<Longrightarrow> dict_in v (bind_absent vars asg)"
proof -
  have keep: "dict_in v d \<Longrightarrow> dict_in v (bind_absent vs d)" for vs and d :: assignment
    unfolding bind_absent_def
    by (induction vs arbitrary: d) (auto simp: dict_in_def dict_set_def update_conv')
  show "v \<in> set vars \<Longrightarrow> dict_in v (bind_absent vars asg)"
  proof (induction vars arbitrary: asg)
    case Nil
    then show ?case by simp
  next
    case (Cons x xs)
    show ?case
    proof (cases "v = x")
      case True
      then have "dict_in v (if dict_in x asg then asg else dict_set x 0 asg)" by simp
      from keep [OF this, of xs] show ?thesis by (simp add: bind_absent_def)
    next
      case False
      with Cons have "dict_in v (bind_absent xs (if dict_in x asg then asg else dict_set x 0 asg))"
        by simp
      then show ?thesis by (simp add: bind_absent_def)
    qed
  qed
qed

lemma capacidade_loop_bind_absent:
  "capacidade_loop (bind_absent vars asg) peds corrs xs = capacidade_loop asg peds corrs xs"
  by (simp add: capacidade_loop_iff demanda_def oferta_def dict_get_bind_absent)

text \<open>
  C9. The three checks and their combinator read an assignment only through
  \<open>get(var, 0)\<close>, so they have a result on every assignment, partial or not, and that
  result is the one for the assignment with each absent variable bound to 0. An
  assignment whose size is not the number of variables fails \<open>goal_test\<close>; so does
  every assignment that binds some of the variables and not all of them.
\<close>

theorem checks_on_partial_assignments:
  "(\<forall>v \<in> set vars. dict_in v (bind_absent vars asg))
   \<and> verifica_tamanho_wave asg peds lb ub = verifica_tamanho_wave (bind_absent vars asg) peds lb ub
   \<and> verifica_capacidade asg peds corrs = verifica_capacidade (bind_absent vars asg) peds corrs
   \<and> verifica_corridor_selecionado asg corrs
       = verifica_corridor_selecionado (bind_absent vars asg) corrs
   \<and> check_global_constraints asg peds corrs lb ub
       = check_global_constraints (bind_absent vars asg) peds corrs lb ub
   \<and> (length asg \<noteq> length (variables csp) \<longrightarrow> \<not> goal_test csp asg)
   \<and> (distinct (variables csp) \<and> distinct (keys asg)
        \<and> set (keys asg) \<subset> set (variables csp) \<longrightarrow> \<not> goal_test csp asg)"
proof -
  have wave: "verifica_tamanho_wave asg peds lb ub
      = verifica_tamanho_wave (bind_absent vars asg) peds lb ub"
    by (simp add: verifica_tamanho_wave_def total_unidades_def dict_get_bind_absent)
  have cap: "verifica_capacidade asg peds corrs
      = verifica_capacidade (bind_absent vars asg) peds corrs"
    by (simp add: verifica_capacidade_def capacidade_loop_bind_absent)
  have corr: "verifica_corridor_selecionado asg corrs
      = verifica_corridor_selecionado (bind_absent vars asg) corrs"
    by (simp add: verifica_corridor_selecionado_def dict_get_bind_absent)
  have comb: "check_global_constraints asg peds corrs lb ub
      = check_global_constraints (bind_absent vars asg) peds corrs lb ub"
    by (simp only: check_global_constraints_def wave [symmetric] cap [symmetric] corr [symmetric])
  have size: "\<not> goal_test csp asg" if "length asg \<noteq> length (variables csp)"
    using that by (simp add: goal_test_def)
  have part: "\<not> goal_test csp asg"
    if "distinct (variables csp)" "distinct (keys asg)" "set (keys asg) \<subset> set (variables csp)"
  proof -
    have "length asg = length (keys asg)" by (simp add: keys_def)
    also have "\<dots> = card (set (keys asg))"
      using that(2) by (simp only: distinct_card)
    also have "\<dots> < card (set (variables csp))"
      using that(3) by (intro psubset_card_mono) simp_all
    also have "\<dots> = length (variables csp)"
      using that(1) by (simp add: distinct_card)
    finally show ?thesis by (intro size) simp
  qed
  from wave cap corr comb size part show ?thesis
    by (simp add: dict_in_bind_absent)
qed

theorem checks_on_partial_assignments_witness:
  "dict_in ''c0'' (bind_absent [''o0'', ''c0''] [(''o0'', 1)])
   \<and> check_global_constraints [(''o0'', 1)] [(0, [(0, 1)])] [(0, [(0, 1)])] 1 1
       = check_global_constraints (bind_absent [''o0'', ''c0''] [(''o0'', 1)])
           [(0, [(0, 1)])] [(0, [(0, 1)])] 1 1
   \<and> \<not> goal_test (csp_problem [(0, [(0, 1)])] [(0, [(0, 1)])] 1 1) [(''o0'', 1)]"
proof -
  let ?csp = "csp_problem [(0, [(0, 1)])] [(0, [(0, 1)])] 1 1"
  have vars: "variables ?csp = [''o0'', ''c0'']"
    by (simp add: variables_csp_problem keys_def var_eval)
  have "length [(''o0'', 1::int)] \<noteq> length (variables ?csp)"
    by (simp add: vars)
  moreover have "distinct (variables ?csp) \<and> distinct (keys [(''o0'', 1::int)])
      \<and> set (keys [(''o0'', 1::int)]) \<subset> set (variables ?csp)"
    by (auto simp: vars keys_def)
  ultimately show ?thesis
    using checks_on_partial_assignments [of "[''o0'', ''c0'']" "[(''o0'', 1)]"
      "[(0, [(0, 1)])]" 1 1 "[(0, [(0, 1)])]" ?csp]
    by simp
qed

section \<open>Ranking\<close>

lemma max_scan_first_max:
  assumes "i < length pre" and "pre ! i = b"
    and "\<forall>j < length pre. key (pre ! j) \<le> key b"
    and "\<forall>j < i. key (pre ! j) < key b"
  shows "\<exists>i' < length (pre @ xs). (pre @ xs) ! i' = max_scan key b xs
           \<and> (\<forall>j < length (pre @ xs). key ((pre @ xs) ! j) \<le> key (max_scan key b xs))
           \<and> (\<forall>j < i'. key ((pre @ xs) ! j) < key (max_scan key b xs))"
  using assms
proof (induction xs arbitrary: pre i b)
  case Nil
  then show ?case by auto
next
  case (Cons x xs)
  show ?case
  proof (cases "key x > key b")
    case True
    have "length pre < length (pre @ [x])" "(pre @ [x]) ! length pre = x" by simp_all
    moreover have "\<forall>j < length (pre @ [x]). key ((pre @ [x]) ! j) \<le> key x"
      using Cons.prems(3) True by (fastforce simp: nth_append less_Suc_eq)
    moreover have "\<forall>j < length pre. key ((pre @ [x]) ! j) < key x"
      using Cons.prems(3) True by (fastforce simp: nth_append)
    ultimately have "\<exists>i' < length ((pre @ [x]) @ xs). ((pre @ [x]) @ xs) ! i' = max_scan key x xs
           \<and> (\<forall>j < length ((pre @ [x]) @ xs). key (((pre @ [x]) @ xs) ! j) \<le> key (max_scan key x xs))
           \<and> (\<forall>j < i'. key (((pre @ [x]) @ xs) ! j) < key (max_scan key x xs))"
      by (rule Cons.IH)
    with True show ?thesis by simp
  next
    case False
    have "i < length (pre @ [x])" "(pre @ [x]) ! i = b"
      using Cons.prems(1,2) by (simp_all add: nth_append)
    moreover have "\<forall>j < length (pre @ [x]). key ((pre @ [x]) ! j) \<le> key b"
      using Cons.prems(3) False by (auto simp: nth_append less_Suc_eq)
    moreover have "\<forall>j < i. key ((pre @ [x]) ! j) < key b"
      using Cons.prems(1,4) by (auto simp: nth_append)
    ultimately have "\<exists>i' < length ((pre @ [x]) @ xs). ((pre @ [x]) @ xs) ! i' = max_scan key b xs
           \<and> (\<forall>j < length ((pre @ [x]) @ xs). key (((pre @ [x]) @ xs) ! j) \<le> key (max_scan key b xs))
           \<and> (\<forall>j < i'. key (((pre @ [x]) @ xs) ! j) < key (max_scan key b xs))"
      by (rule Cons.IH)
    with False show ?thesis by simp
  qed
qed

lemma py_max_first_max:
  assumes "py_max key xs = Inr best"
  shows "\<exists>i < length xs. xs ! i = best
           \<and> (\<forall>j < length xs. key (xs ! j) \<le> key best)
           \<and> (\<forall>j < i. key (xs ! j) < key best)"
proof (cases xs)
  case Nil
  with assms show ?thesis by (simp add: py_max_def)
next
  case (Cons x rest)
  with assms have best: "best = max_scan key x rest" by (simp add: py_max_def)
  have "\<exists>i' < length ([x] @ rest). ([x] @ rest) ! i' = max_scan key x rest
           \<and> (\<forall>j < length ([x] @ rest). key (([x] @ rest) ! j) \<le> key (max_scan key x rest))
           \<and> (\<forall>j < i'. key (([x] @ rest) ! j) < key (max_scan key x rest))"
    by (rule max_scan_first_max [of 0]) simp_all
  with Cons best show ?thesis by simp
qed

lemma resultados_loop_Inr:
  "resultados_loop h peds corrs lb ub refs = Inr rs \<Longrightarrow>
     map fst rs = map ((!) h) refs
     \<and> (\<forall>r \<in> set rs. case r of (sol, tot, num_corr, obj) \<Rightarrow>
           tot = total_unidades sol peds
           \<and> num_corr = snd (verifica_corridor_selecionado sol corrs)
           \<and> calcular_valor_objetivo tot num_corr = Inr obj)"
proof (induction refs arbitrary: rs)
  case Nil
  then show ?case by simp
next
  case (Cons sol rest)
  then show ?case
    by (auto simp: Let_def verifica_tamanho_wave_def split: sum.splits)
qed

lemma main_Melhor:
  assumes "main fuel peds corrs lb ub = Some (Inr (Melhor rs best))"
  shows "\<exists>h out. all_solutions fuel (csp_problem peds corrs lb ub) None ([], [])
             = Some (Inr (h, out))
           \<and> out \<noteq> []
           \<and> resultados_loop h peds corrs lb ub out = Inr rs
           \<and> py_max (\<lambda>x. snd (snd (snd x))) rs = Inr best"
  using assms
  by (auto simp: main_def split: option.splits sum.splits prod.splits if_splits)


lemma main_run:
  assumes "distinct (keys peds)" and "distinct (keys corrs)"
    and "length peds + length corrs < fuel"
  shows "main fuel peds corrs lb ub =
     (if naive_enumeration (csp_problem peds corrs lb ub) = [] then Some (Inr Nenhuma_solucao)
      else
        (case resultados_loop ([[]] @ naive_enumeration (csp_problem peds corrs lb ub))
                peds corrs lb ub
                [1 ..< 1 + length (naive_enumeration (csp_problem peds corrs lb ub))] of
           Inl e \<Rightarrow> Some (Inl e)
         | Inr resultados \<Rightarrow>
             (case py_max (\<lambda>x. snd (snd (snd x))) resultados of
                Inl e \<Rightarrow> Some (Inl e)
              | Inr best \<Rightarrow> Some (Inr (Melhor resultados best)))))"
proof (cases "naive_enumeration (csp_problem peds corrs lb ub) = []")
  case True
  then show ?thesis by (simp add: main_def all_solutions_run [OF assms])
next
  case False
  then have "[1 ..< 1 + length (naive_enumeration (csp_problem peds corrs lb ub))] \<noteq> []"
    by (simp add: Suc_le_eq)
  with False show ?thesis by (simp add: main_def all_solutions_run [OF assms])
qed

lemma two_corridors_enumeration:
  "naive_enumeration (csp_problem [(0, [(0, 1)])] [(0, [(0, 1)]), (1, [(0, 1)])] 1 1) =
     [[(''o0'', 1), (''c0'', 0), (''c1'', 1)],
      [(''o0'', 1), (''c0'', 1), (''c1'', 0)],
      [(''o0'', 1), (''c0'', 1), (''c1'', 1)]]"
  by (simp add: check_eval)

lemma two_corridors_main:
  "main 4 [(0, [(0, 1)])] [(0, [(0, 1)]), (1, [(0, 1)])] 1 1 =
     Some (Inr (Melhor
       [([(''o0'', 1), (''c0'', 0), (''c1'', 1)], 1, 1, 1),
        ([(''o0'', 1), (''c0'', 1), (''c1'', 0)], 1, 1, 1),
        ([(''o0'', 1), (''c0'', 1), (''c1'', 1)], 1, 2, 1 / 2)]
       ([(''o0'', 1), (''c0'', 0), (''c1'', 1)], 1, 1, 1)))"
proof -
  have "main 4 [(0, [(0, 1)])] [(0, [(0, 1)]), (1, [(0, 1)])] 1 1 =
     (if naive_enumeration (csp_problem [(0, [(0, 1)])] [(0, [(0, 1)]), (1, [(0, 1)])] 1 1) = []
      then Some (Inr Nenhuma_solucao)
      else
        (case resultados_loop
                ([[]] @ naive_enumeration (csp_problem [(0, [(0, 1)])] [(0, [(0, 1)]), (1, [(0, 1)])] 1 1))
                [(0, [(0, 1)])] [(0, [(0, 1)]), (1, [(0, 1)])] 1 1
                [1 ..< 1 + length (naive_enumeration
                    (csp_problem [(0, [(0, 1)])] [(0, [(0, 1)]), (1, [(0, 1)])] 1 1))] of
           Inl e \<Rightarrow> Some (Inl e)
         | Inr resultados \<Rightarrow>
             (case py_max (\<lambda>x. snd (snd (snd x))) resultados of
                Inl e \<Rightarrow> Some (Inl e)
              | Inr best \<Rightarrow> Some (Inr (Melhor resultados best)))))"
    by (rule main_run) (simp_all add: keys_def)
  also have "\<dots> = Some (Inr (Melhor
       [([(''o0'', 1), (''c0'', 0), (''c1'', 1)], 1, 1, 1),
        ([(''o0'', 1), (''c0'', 1), (''c1'', 0)], 1, 1, 1),
        ([(''o0'', 1), (''c0'', 1), (''c1'', 1)], 1, 2, 1 / 2)]
       ([(''o0'', 1), (''c0'', 0), (''c1'', 1)], 1, 1, 1)))"
    unfolding two_corridors_enumeration
    by (simp add: upt_rec [of 1] upt_rec [of 2] upt_rec [of 3] upt_rec [of 4]
        verifica_tamanho_wave_def total_unidades_def values_of_def
        verifica_corridor_selecionado_def dict_get_def var_eval truediv_eval py_max_def)
  finally show ?thesis .
qed

text \<open>
  C8. The best result is one of the results, no result has a greater objective, and
  every result before it in the list has a smaller one: among the results of maximal
  objective it is the first. The results are in the order in which the search yielded
  their assignments.
\<close>

theorem main_best_is_first_max:
  assumes "main fuel peds corrs lb ub = Some (Inr (Melhor rs best))"
  shows "(\<exists>i < length rs. rs ! i = best
            \<and> (\<forall>j < length rs. snd (snd (snd (rs ! j))) \<le> snd (snd (snd best)))
            \<and> (\<forall>j < i. snd (snd (snd (rs ! j))) < snd (snd (snd best))))
         \<and> (\<exists>h out. all_solutions fuel (csp_problem peds corrs lb ub) None ([], [])
                       = Some (Inr (h, out))
                     \<and> map fst rs = map ((!) h) out)"
proof -
  from main_Melhor [OF assms] obtain h out where
    run: "all_solutions fuel (csp_problem peds corrs lb ub) None ([], []) = Some (Inr (h, out))"
    and loop: "resultados_loop h peds corrs lb ub out = Inr rs"
    and best: "py_max (\<lambda>x. snd (snd (snd x))) rs = Inr best"
    by blast
  from resultados_loop_Inr [OF loop] have "map fst rs = map ((!) h) out" by blast
  with run py_max_first_max [OF best] show ?thesis by blast
qed

theorem main_best_is_first_max_witness:
  "\<exists>rs best. main 4 [(0, [(0, 1)])] [(0, [(0, 1)]), (1, [(0, 1)])] 1 1
                 = Some (Inr (Melhor rs best))
     \<and> best = ([(''o0'', 1), (''c0'', 0), (''c1'', 1)], 1, 1, 1)
     \<and> (\<exists>i < length rs. rs ! i = best
           \<and> (\<forall>j < length rs. snd (snd (snd (rs ! j))) \<le> snd (snd (snd best)))
           \<and> (\<forall>j < i. snd (snd (snd (rs ! j))) < snd (snd (snd best))))"
  using two_corridors_main
    main_best_is_first_max [OF two_corridors_main, THEN conjunct1]
  by blast

section \<open>The float quotient\<close>

lemma pow2_powi: "pow2 e = 2 powi e"
  by (simp add: pow2_def power_int_def power_one_over inverse_eq_divide)

lemma pow2_pos: "0 < pow2 e"
  by (simp add: pow2_powi)

lemma pow2_add: "pow2 (x + y) = pow2 x * pow2 y"
  by (simp add: pow2_powi power_int_add)

lemma pow2_nat: "pow2 (int n) = 2 ^ n"
  by (simp add: pow2_def)

lemma pow2_mono: "x \<le> y \<Longrightarrow> pow2 x \<le> pow2 y"
  by (simp add: pow2_powi power_int_increasing)

lemma pow2_less_cancel: "pow2 x < pow2 y \<Longrightarrow> x < y"
  using pow2_mono [of y x] by (cases "x < y") auto

lemma bit_length_bounds:
  "0 < n \<Longrightarrow> 2 ^ (bit_length n - 1) \<le> n \<and> n < 2 ^ bit_length n"
proof (induction n rule: bit_length.induct)
  case (1 n)
  show ?case
  proof (cases "n div 2 = 0")
    case True
    with 1(2) have "n = 1" by (auto simp: div_eq_0_iff)
    then show ?thesis by (simp add: bit_length.simps)
  next
    case False
    with 1 have IH: "2 ^ (bit_length (n div 2) - 1) \<le> n div 2" "n div 2 < 2 ^ bit_length (n div 2)"
      by simp_all
    have pos: "0 < bit_length (n div 2)"
      using False by (subst bit_length.simps) simp
    have bl: "bit_length n = Suc (bit_length (n div 2))"
      using 1(2) by (subst bit_length.simps) simp
    have "2 ^ (bit_length n - 1) = 2 * 2 ^ (bit_length (n div 2) - 1)"
      using pos by (simp add: bl flip: power_Suc)
    also have "\<dots> \<le> 2 * (n div 2)" using IH(1) by simp
    also have "\<dots> \<le> n" by simp
    finally have lower: "2 ^ (bit_length n - 1) \<le> n" .
    have "n < 2 * (n div 2) + 2" by presburger
    also have "\<dots> \<le> 2 * 2 ^ bit_length (n div 2)" using IH(2) by simp
    finally have "n < 2 ^ bit_length n" by (simp add: bl)
    with lower show ?thesis by simp
  qed
qed

lemma floor_log2_bounds:
  assumes "0 < a" and "0 < b"
  shows "pow2 (floor_log2 a b) * of_nat b \<le> of_nat a"
    and "of_nat a < pow2 (floor_log2 a b + 1) * of_nat b"
proof -
  define la where "la = bit_length a"
  define lb where "lb = bit_length b"
  define d where "d = int la - int lb"
  from bit_length_bounds [OF assms(1)] have a: "2 ^ (la - 1) \<le> a" "a < 2 ^ la"
    by (simp_all add: la_def)
  from bit_length_bounds [OF assms(2)] have b: "2 ^ (lb - 1) \<le> b" "b < 2 ^ lb"
    by (simp_all add: lb_def)
  have la: "0 < la" using a(2) assms(1) by (cases la) simp_all
  have lb: "0 < lb" using b(2) assms(2) by (cases lb) simp_all
  have ra: "(2::real) ^ (la - 1) \<le> of_nat a" "of_nat a < (2::real) ^ la"
    using a by (metis of_nat_le_iff of_nat_numeral of_nat_power, metis of_nat_less_iff of_nat_numeral of_nat_power)
  have rb: "(2::real) ^ (lb - 1) \<le> of_nat b" "of_nat b < (2::real) ^ lb"
    using b by (metis of_nat_le_iff of_nat_numeral of_nat_power, metis of_nat_less_iff of_nat_numeral of_nat_power)
  have low: "pow2 (d - 1) * of_nat b \<le> of_nat a"
  proof -
    have "pow2 (d - 1) * of_nat b \<le> pow2 (d - 1) * 2 ^ lb"
      using rb(2) pow2_pos [of "d - 1"] by simp
    also have "\<dots> = pow2 (d - 1) * pow2 (int lb)" by (simp add: pow2_nat)
    also have "\<dots> = pow2 (int (la - 1))"
      using la by (simp add: d_def flip: pow2_add)
    also have "\<dots> \<le> of_nat a" using ra(1) by (simp add: pow2_nat)
    finally show ?thesis .
  qed
  have high: "of_nat a < pow2 (d + 1) * of_nat b"
  proof -
    have "of_nat a < pow2 (int la)" using ra(2) by (simp add: pow2_nat)
    also have "\<dots> = pow2 (d + 1) * pow2 (int (lb - 1))"
      using lb by (simp add: d_def flip: pow2_add)
    also have "\<dots> \<le> pow2 (d + 1) * of_nat b"
      using rb(1) pow2_pos [of "d + 1"] by (simp add: pow2_nat)
    finally show ?thesis .
  qed
  show "pow2 (floor_log2 a b) * of_nat b \<le> of_nat a"
    using low by (simp add: floor_log2_def Let_def d_def la_def lb_def)
  show "of_nat a < pow2 (floor_log2 a b + 1) * of_nat b"
    using high by (auto simp: floor_log2_def Let_def d_def la_def lb_def not_le)
qed

lemma round_half_even_int: "round_half_even (of_int k) = k"
  by (simp add: round_half_even_def)

lemma round_half_even_cases:
  "round_half_even y = \<lfloor>y\<rfloor> \<or> (round_half_even y = \<lfloor>y\<rfloor> + 1 \<and> 1 / 2 \<le> y - of_int \<lfloor>y\<rfloor>)"
  by (auto simp: round_half_even_def Let_def)

lemma round_half_even_le: "y \<le> of_int k \<Longrightarrow> round_half_even y \<le> k"
proof -
  assume le: "y \<le> of_int k"
  then have fl: "\<lfloor>y\<rfloor> \<le> k" by (simp add: floor_le_iff)
  from round_half_even_cases [of y] show ?thesis
  proof
    assume "round_half_even y = \<lfloor>y\<rfloor>"
    with fl show ?thesis by simp
  next
    assume r: "round_half_even y = \<lfloor>y\<rfloor> + 1 \<and> 1 / 2 \<le> y - of_int \<lfloor>y\<rfloor>"
    then have "of_int \<lfloor>y\<rfloor> < y" by linarith
    with le have "\<lfloor>y\<rfloor> < k" by linarith
    with r show ?thesis by simp
  qed
qed

lemma round_half_even_nonneg: "0 \<le> y \<Longrightarrow> 0 \<le> round_half_even y"
  using round_half_even_cases [of y] by auto

lemma round_half_even_error: "\<bar>of_int (round_half_even y) - y\<bar> \<le> 1 / 2"
  by (auto simp: round_half_even_def Let_def abs_if not_less) linarith+

lemma py_truediv_unfold:
  assumes "a \<noteq> 0" and "b \<noteq> 0"
  defines "x \<equiv> \<bar>of_int a / of_int b :: real\<bar>"
  defines "e \<equiv> max (floor_log2 (nat \<bar>a\<bar>) (nat \<bar>b\<bar>)) (- 1022)"
  defines "r \<equiv> of_int (round_half_even (x / pow2 (e - 52))) * pow2 (e - 52)"
  shows "py_truediv a b =
           (if pow2 1024 \<le> r then Inl OverflowError else Inr (sgn (of_int a / of_int b) * r))"
    and "pow2 (floor_log2 (nat \<bar>a\<bar>) (nat \<bar>b\<bar>)) \<le> x"
    and "x < pow2 (floor_log2 (nat \<bar>a\<bar>) (nat \<bar>b\<bar>) + 1)"
    and "0 \<le> r" and "\<bar>r - x\<bar> \<le> pow2 (e - 52) / 2"
proof -
  let ?A = "nat \<bar>a\<bar>" and ?B = "nat \<bar>b\<bar>"
  have pos: "0 < ?A" "0 < ?B" using assms(1,2) by simp_all
  have x: "x = of_nat ?A / of_nat ?B"
    by (simp add: x_def abs_divide)
  have B: "(0::real) < of_nat ?B" using pos(2) by simp
  show "py_truediv a b =
           (if pow2 1024 \<le> r then Inl OverflowError else Inr (sgn (of_int a / of_int b) * r))"
    using assms(1,2) by (simp add: py_truediv_def Let_def r_def e_def x_def)
  from floor_log2_bounds(1) [OF pos] B show "pow2 (floor_log2 ?A ?B) \<le> x"
    by (simp add: x pos_le_divide_eq)
  from floor_log2_bounds(2) [OF pos] B show "x < pow2 (floor_log2 ?A ?B + 1)"
    by (simp add: x pos_divide_less_eq)
  have "0 \<le> x / pow2 (e - 52)"
    using pow2_pos [of "e - 52"] by (simp add: x_def)
  then show "0 \<le> r"
    using round_half_even_nonneg pow2_pos [of "e - 52"] by (simp add: r_def)
  have "r - x = (of_int (round_half_even (x / pow2 (e - 52))) - x / pow2 (e - 52)) * pow2 (e - 52)"
    using pow2_pos [of "e - 52"] by (simp add: r_def algebra_simps)
  then have "\<bar>r - x\<bar> = \<bar>of_int (round_half_even (x / pow2 (e - 52))) - x / pow2 (e - 52)\<bar>
      * pow2 (e - 52)"
    using pow2_pos [of "e - 52"] by (simp add: abs_mult)
  also have "\<dots> \<le> 1 / 2 * pow2 (e - 52)"
    using round_half_even_error [of "x / pow2 (e - 52)"] pow2_pos [of "e - 52"]
    by (intro mult_right_mono) simp_all
  finally show "\<bar>r - x\<bar> \<le> pow2 (e - 52) / 2" by simp
qed

lemma py_truediv_bounded:
  assumes "a \<noteq> 0" and "b \<noteq> 0"
    and le: "\<bar>of_int a / of_int b :: real\<bar> \<le> of_int N" and N: "N < 2 ^ 53"
  shows "\<exists>r. py_truediv a b = Inr r \<and> \<bar>r\<bar> \<le> of_int N
           \<and> (\<bar>of_int a / of_int b :: real\<bar> = of_int N \<longrightarrow> r = of_int a / of_int b)"
proof -
  define q :: real where "q = of_int a / of_int b"
  define x where "x = \<bar>q\<bar>"
  define e where "e = max (floor_log2 (nat \<bar>a\<bar>) (nat \<bar>b\<bar>)) (- 1022)"
  define r where "r = of_int (round_half_even (x / pow2 (e - 52))) * pow2 (e - 52)"
  note u = py_truediv_unfold [OF assms(1,2), folded q_def x_def e_def r_def]
  have q: "q \<noteq> 0" using assms(1,2) by (simp add: q_def)
  have "pow2 (floor_log2 (nat \<bar>a\<bar>) (nat \<bar>b\<bar>)) \<le> of_int N"
    using u(2) le by (simp add: x_def q_def)
  also have "\<dots> < pow2 53" using N by (simp add: pow2_def)
  finally have "floor_log2 (nat \<bar>a\<bar>) (nat \<bar>b\<bar>) < 53" by (rule pow2_less_cancel)
  then have e: "e \<le> 52" by (simp add: e_def)
  define k where "k = nat (52 - e)"
  have "pow2 (e - 52) * pow2 (int k) = pow2 0"
    using e by (simp add: k_def flip: pow2_add)
  then have ulp: "pow2 (e - 52) * 2 ^ k = 1" by (simp add: pow2_nat) (simp add: pow2_def)
  have ulp_pos: "0 < pow2 (e - 52)" by (rule pow2_pos)
  have inv: "x / pow2 (e - 52) = x * 2 ^ k" for x :: real
    using ulp ulp_pos by (simp add: field_simps)
  have "x * 2 ^ k \<le> of_int N * 2 ^ k"
    using le by (intro mult_right_mono) (simp_all add: x_def q_def)
  then have "x / pow2 (e - 52) \<le> of_int (N * 2 ^ k)"
    by (simp add: inv)
  then have "round_half_even (x / pow2 (e - 52)) \<le> N * 2 ^ k"
    by (rule round_half_even_le)
  then have "(of_int (round_half_even (x / pow2 (e - 52))) :: real) \<le> of_int (N * 2 ^ k)"
    by (simp only: of_int_le_iff)
  then have "r \<le> of_int (N * 2 ^ k) * pow2 (e - 52)"
    using ulp_pos by (simp add: r_def)
  also have "\<dots> = of_int N" using ulp by (simp add: mult.assoc mult.commute [of "2 ^ k"])
  finally have rN: "r \<le> of_int N" .
  have "(of_int N :: real) < 2 ^ 53" using N by (metis of_int_less_iff of_int_numeral of_int_power)
  also have "\<dots> \<le> pow2 1024" by (simp add: pow2_def)
  finally have "\<not> pow2 1024 \<le> r" using rN by simp
  with u(1) have res: "py_truediv a b = Inr (sgn q * r)" by (simp add: r_def)
  have "0 \<le> r" using u(4) by (simp add: r_def)
  then have abs: "\<bar>sgn q * r\<bar> \<le> of_int N"
    using q rN by (simp add: abs_mult)
  have exact: "sgn q * r = q" if "x = of_int N"
  proof -
    from that have "x / pow2 (e - 52) = of_int (N * 2 ^ k)" by (simp add: inv)
    then have "round_half_even (x / pow2 (e - 52)) = N * 2 ^ k"
      by (simp only: round_half_even_int)
    then have "r = of_int (N * 2 ^ k) * pow2 (e - 52)" by (simp add: r_def)
    also have "\<dots> = of_int N" using ulp by (simp add: mult.assoc mult.commute [of "2 ^ k"])
    finally have "r = x" using that by simp
    then show ?thesis by (simp add: x_def sgn_mult_abs)
  qed
  from res abs exact show ?thesis
    by (auto simp: q_def x_def)
qed

lemma py_truediv_error:
  assumes "a \<noteq> 0" and "b \<noteq> 0" and small: "\<bar>b\<bar> \<le> 2 ^ 1022"
    and res: "py_truediv a b = Inr r"
  shows "\<bar>r - of_int a / of_int b\<bar> \<le> \<bar>of_int a / of_int b\<bar> / 2 ^ 53"
proof -
  define q :: real where "q = of_int a / of_int b"
  define x where "x = \<bar>q\<bar>"
  define e0 where "e0 = floor_log2 (nat \<bar>a\<bar>) (nat \<bar>b\<bar>)"
  define e where "e = max e0 (- 1022)"
  define r0 where "r0 = of_int (round_half_even (x / pow2 (e - 52))) * pow2 (e - 52)"
  note u = py_truediv_unfold [OF assms(1,2), folded q_def x_def e0_def, folded e_def, folded r0_def]
  have q: "q \<noteq> 0" using assms(1,2) by (simp add: q_def)
  from u(1) res have r: "r = sgn q * r0" by (simp add: r0_def split: if_splits)
  have "1 \<le> \<bar>a\<bar>" using assms(1) by linarith
  then have "(1::real) \<le> of_int \<bar>a\<bar>" by (simp only: of_int_1_le_iff)
  then have "(1::real) \<le> \<bar>of_int a\<bar>" by (simp only: of_int_abs)
  moreover have "(of_int \<bar>b\<bar> :: real) \<le> 2 ^ 1022"
    using small by (metis of_int_le_iff of_int_numeral of_int_power)
  then have "\<bar>of_int b :: real\<bar> \<le> 2 ^ 1022" by (simp only: of_int_abs)
  moreover have "(0::real) < \<bar>of_int b\<bar>" using assms(2) by simp
  ultimately have "1 / 2 ^ 1022 \<le> \<bar>of_int a :: real\<bar> / \<bar>of_int b\<bar>"
    by (intro frac_le) simp_all
  then have "pow2 (- 1022) \<le> x" by (simp add: pow2_def x_def q_def abs_divide)
  also note u(3)
  finally have "- 1022 < e0 + 1" by (rule pow2_less_cancel)
  then have e: "e = e0" by (simp add: e_def)
  have "\<bar>r0 - x\<bar> \<le> pow2 (e0 - 52) / 2" using u(5) by (simp add: e r0_def)
  also have "pow2 (e0 - 52) = pow2 e0 * pow2 (- 52)" by (simp flip: pow2_add)
  also have "pow2 e0 * pow2 (- 52) / 2 = pow2 e0 / 2 ^ 53" by (simp add: pow2_def)
  also have "\<dots> \<le> x / 2 ^ 53" using u(2) by (simp add: divide_right_mono)
  finally have "\<bar>r0 - x\<bar> \<le> x / 2 ^ 53" .
  moreover have "r - q = sgn q * (r0 - x)"
    by (simp add: r x_def algebra_simps) (metis mult.commute mult_sgn_abs)
  ultimately show ?thesis
    using q by (simp add: abs_mult x_def flip: q_def)
qed

section \<open>Assignments as lists of values\<close>

lemma selected_sum_eq:
  assumes "length bits = length xs" and "\<And>i. i < length xs \<Longrightarrow> sel (xs ! i) = bits ! i"
  shows "sum_list (map (\<lambda>x. if sel x = 1 then f x else 0) xs) = selected_sum f xs bits"
proof -
  have "map (\<lambda>x. if sel x = 1 then f x else 0) xs
      = map (\<lambda>(x, b). if b = 1 then f x else 0) (zip xs bits)"
    using assms by (intro nth_equalityI) simp_all
  then show ?thesis by (simp add: selected_sum_def)
qed

lemma dict_get_complete:
  fixes lb ub :: int
  assumes "distinct (keys peds)" and "distinct (keys corrs)"
    and "length obits = length peds" and "length cbits = length corrs"
  defines "asg \<equiv> zip (variables (csp_problem peds corrs lb ub)) (obits @ cbits)"
  shows "i < length peds \<Longrightarrow> dict_get asg (o_var (fst (peds ! i))) 0 = obits ! i"
    and "i < length corrs \<Longrightarrow> dict_get asg (c_var (fst (corrs ! i))) 0 = cbits ! i"
proof -
  let ?vs = "variables (csp_problem peds corrs lb ub)"
  have d: "distinct ?vs" using assms(1,2) by (rule distinct_variables_csp_problem)
  have len: "length ?vs = length (obits @ cbits)"
    using assms(3,4) by (simp add: variables_csp_problem keys_def)
  have look: "dict_get asg (?vs ! j) 0 = (obits @ cbits) ! j" if "j < length (obits @ cbits)" for j
    using map_of_zip_nth [OF len d that] by (simp add: dict_get_def asg_def)
  show "dict_get asg (o_var (fst (peds ! i))) 0 = obits ! i" if "i < length peds"
    using look [of i] that assms(3) by (simp add: variables_csp_problem keys_def nth_append)
  show "dict_get asg (c_var (fst (corrs ! i))) 0 = cbits ! i" if "i < length corrs"
    using look [of "length peds + i"] that assms(3,4)
    by (simp add: variables_csp_problem keys_def nth_append)
qed

lemma checks_complete:
  fixes lb ub :: int
  assumes "distinct (keys peds)" and "distinct (keys corrs)"
    and "length obits = length peds" and "length cbits = length corrs"
  defines "asg \<equiv> zip (variables (csp_problem peds corrs lb ub)) (obits @ cbits)"
  shows "total_unidades asg peds = selected_sum (\<lambda>(o_id, its). sum_list (values_of its)) peds obits"
    and "demanda asg peds item = selected_sum (\<lambda>(o_id, its). dict_get its item 0) peds obits"
    and "oferta asg corrs item = selected_sum (\<lambda>(c, its). dict_get its item 0) corrs cbits"
    and "snd (verifica_corridor_selecionado asg corrs) = sum_list cbits"
proof -
  note get = dict_get_complete [OF assms(1-4), where lb = lb and ub = ub, folded asg_def]
  have "total_unidades asg peds
      = sum_list (map (\<lambda>x. if dict_get asg (o_var (fst x)) 0 = 1
                            then (\<lambda>(o_id, its). sum_list (values_of its)) x else 0) peds)"
    unfolding total_unidades_def
    by (rule arg_cong [where f = sum_list]) (simp add: case_prod_unfold)
  also have "\<dots> = selected_sum (\<lambda>(o_id, its). sum_list (values_of its)) peds obits"
    using assms(3) get(1) by (intro selected_sum_eq) simp_all
  finally show "total_unidades asg peds
      = selected_sum (\<lambda>(o_id, its). sum_list (values_of its)) peds obits" .
  have "demanda asg peds item
      = sum_list (map (\<lambda>x. if dict_get asg (o_var (fst x)) 0 = 1
                            then (\<lambda>(o_id, its). dict_get its item 0) x else 0) peds)"
    unfolding demanda_def sum_list_map_filter'
    by (rule arg_cong [where f = sum_list]) (simp add: case_prod_unfold)
  also have "\<dots> = selected_sum (\<lambda>(o_id, its). dict_get its item 0) peds obits"
    using assms(3) get(1) by (intro selected_sum_eq) simp_all
  finally show "demanda asg peds item
      = selected_sum (\<lambda>(o_id, its). dict_get its item 0) peds obits" .
  have "oferta asg corrs item
      = sum_list (map (\<lambda>x. if dict_get asg (c_var (fst x)) 0 = 1
                            then (\<lambda>(c, its). dict_get its item 0) x else 0) corrs)"
    unfolding oferta_def sum_list_map_filter'
    by (rule arg_cong [where f = sum_list]) (simp add: case_prod_unfold)
  also have "\<dots> = selected_sum (\<lambda>(c, its). dict_get its item 0) corrs cbits"
    using assms(4) get(2) by (intro selected_sum_eq) simp_all
  finally show "oferta asg corrs item
      = selected_sum (\<lambda>(c, its). dict_get its item 0) corrs cbits" .
  have "map (\<lambda>(c, its). dict_get asg (c_var c) 0) corrs = cbits"
    using assms(4) get(2) by (intro nth_equalityI) (simp_all add: case_prod_beta)
  then show "snd (verifica_corridor_selecionado asg corrs) = sum_list cbits"
    by (simp add: verifica_corridor_selecionado_def Let_def)
qed

lemma naive_enumeration_bits:
  assumes "distinct (keys peds)" and "distinct (keys corrs)"
    and "asg \<in> set (naive_enumeration (csp_problem peds corrs lb ub))"
  obtains obits cbits where
    "obits \<in> set (all_bits (length peds))" "cbits \<in> set (all_bits (length corrs))"
    "asg = zip (variables (csp_problem peds corrs lb ub)) (obits @ cbits)"
proof -
  let ?vs = "variables (csp_problem peds corrs lb ub)"
  have n: "length ?vs = length peds + length corrs"
    by (simp add: variables_csp_problem keys_def)
  from assms(3) obtain bits where bits: "bits \<in> set (all_bits (length ?vs))" "asg = zip ?vs bits"
    by (auto simp: naive_enumeration_def)
  let ?o = "take (length peds) bits" and ?c = "drop (length peds) bits"
  from bits(1) have "length bits = length peds + length corrs" "set bits \<subseteq> {0, 1}"
    by (simp_all add: set_all_bits n)
  then have "?o \<in> set (all_bits (length peds))" "?c \<in> set (all_bits (length corrs))"
    using set_take_subset [of "length peds" bits] set_drop_subset [of "length peds" bits]
    by (auto simp: set_all_bits)
  moreover have "asg = zip ?vs (?o @ ?c)" using bits(2) by simp
  ultimately show ?thesis by (rule that)
qed

section \<open>The given data\<close>

lemma itens_pedidos_data: "itens_pedidos pedidos = [0, 2, 3, 4, 1]"
  by (simp add: itens_pedidos_def pedidos_def keys_def)

lemma all_bits_5:
  "all_bits 5 =
    [[0,0,0,0,0],[0,0,0,0,1],[0,0,0,1,0],[0,0,0,1,1],[0,0,1,0,0],[0,0,1,0,1],[0,0,1,1,0],
     [0,0,1,1,1],[0,1,0,0,0],[0,1,0,0,1],[0,1,0,1,0],[0,1,0,1,1],[0,1,1,0,0],[0,1,1,0,1],
     [0,1,1,1,0],[0,1,1,1,1],[1,0,0,0,0],[1,0,0,0,1],[1,0,0,1,0],[1,0,0,1,1],[1,0,1,0,0],
     [1,0,1,0,1],[1,0,1,1,0],[1,0,1,1,1],[1,1,0,0,0],[1,1,0,0,1],[1,1,0,1,0],[1,1,0,1,1],
     [1,1,1,0,0],[1,1,1,0,1],[1,1,1,1,0],[1,1,1,1,1]]"
  by (simp add: eval_nat_numeral)

lemma data_bound:
  "\<forall>obits \<in> set (all_bits 5). \<forall>cbits \<in> set (all_bits 5).
     5 \<le> selected_sum (\<lambda>(o_id, its). sum_list (values_of its)) pedidos obits
     \<and> selected_sum (\<lambda>(o_id, its). sum_list (values_of its)) pedidos obits \<le> 12
     \<and> (\<forall>item \<in> set (itens_pedidos pedidos).
           selected_sum (\<lambda>(o_id, its). dict_get its item 0) pedidos obits
             \<le> selected_sum (\<lambda>(c, its). dict_get its item 0) corredores cbits)
     \<and> 0 < sum_list cbits
     \<longrightarrow> selected_sum (\<lambda>(o_id, its). sum_list (values_of its)) pedidos obits
           \<le> 5 * sum_list cbits"
  unfolding all_bits_5 itens_pedidos_data
  by (simp add: selected_sum_def pedidos_def corredores_def values_of_def dict_get_def)

lemma fst_verifica_corridor_selecionado:
  "fst (verifica_corridor_selecionado asg corrs) \<longleftrightarrow>
     0 < snd (verifica_corridor_selecionado asg corrs)"
  by (simp add: verifica_corridor_selecionado_def Let_def)

lemma feasible_complete:
  fixes lb ub :: int
  assumes "distinct (keys peds)" and "distinct (keys corrs)"
    and "length obits = length peds" and "length cbits = length corrs"
  defines "asg \<equiv> zip (variables (csp_problem peds corrs lb ub)) (obits @ cbits)"
  shows "feasible (csp_problem peds corrs lb ub) asg \<longleftrightarrow>
     lb \<le> selected_sum (\<lambda>(o_id, its). sum_list (values_of its)) peds obits
     \<and> selected_sum (\<lambda>(o_id, its). sum_list (values_of its)) peds obits \<le> ub
     \<and> (\<forall>item \<in> set (itens_pedidos peds).
           selected_sum (\<lambda>(o_id, its). dict_get its item 0) peds obits
             \<le> selected_sum (\<lambda>(c, its). dict_get its item 0) corrs cbits)
     \<and> 0 < sum_list cbits"
  unfolding feasible_def data_csp_problem verifica_tamanho_wave_def verifica_capacidade_def
    capacidade_loop_iff fst_verifica_corridor_selecionado Let_def fst_conv asg_def
    checks_complete [OF assms(1-4)]
  by simp

lemma resultados_loop_total:
  assumes "\<And>sol. sol \<in> set refs \<Longrightarrow>
     \<exists>obj. calcular_valor_objetivo (total_unidades (h ! sol) peds)
             (snd (verifica_corridor_selecionado (h ! sol) corrs)) = Inr obj"
  shows "\<exists>rs. resultados_loop h peds corrs lb ub refs = Inr rs"
  using assms
proof (induction refs)
  case Nil
  then show ?case by simp
next
  case (Cons sol rest)
  from Cons.prems [of sol] obtain obj where
    "calcular_valor_objetivo (total_unidades (h ! sol) peds)
       (snd (verifica_corridor_selecionado (h ! sol) corrs)) = Inr obj"
    by auto
  moreover from Cons obtain rs where "resultados_loop h peds corrs lb ub rest = Inr rs"
    by auto
  ultimately show ?case
    by (simp add: Let_def verifica_tamanho_wave_def)
qed

lemma distinct_data: "distinct (keys pedidos)" "distinct (keys corredores)"
  by (simp_all add: keys_def pedidos_def corredores_def)

lemma length_data: "length pedidos = 5" "length corredores = 5"
  by (simp_all add: pedidos_def corredores_def)

lemma data_feasible:
  assumes "asg \<in> set (naive_enumeration (csp_problem pedidos corredores LB UB))"
  shows "5 \<le> total_unidades asg pedidos" and "total_unidades asg pedidos \<le> 12"
    and "0 < snd (verifica_corridor_selecionado asg corredores)"
    and "total_unidades asg pedidos \<le> 5 * snd (verifica_corridor_selecionado asg corredores)"
proof -
  from distinct_data assms obtain obits cbits where
    o: "obits \<in> set (all_bits (length pedidos))" and
    c: "cbits \<in> set (all_bits (length corredores))" and
    asg: "asg = zip (variables (csp_problem pedidos corredores LB UB)) (obits @ cbits)"
    by (rule naive_enumeration_bits)
  from o c have len: "length obits = length pedidos" "length cbits = length corredores"
    by (simp_all add: set_all_bits)
  note chk = checks_complete [OF distinct_data len, where lb = LB and ub = UB, folded asg]
  from assms have "feasible (csp_problem pedidos corredores LB UB) asg"
    by (simp add: naive_enumeration_def)
  then have f: "5 \<le> selected_sum (\<lambda>(o_id, its). sum_list (values_of its)) pedidos obits
     \<and> selected_sum (\<lambda>(o_id, its). sum_list (values_of its)) pedidos obits \<le> 12
     \<and> (\<forall>item \<in> set (itens_pedidos pedidos).
           selected_sum (\<lambda>(o_id, its). dict_get its item 0) pedidos obits
             \<le> selected_sum (\<lambda>(c, its). dict_get its item 0) corredores cbits)
     \<and> 0 < sum_list cbits"
    unfolding asg feasible_complete [OF distinct_data len] by (simp add: LB_def UB_def)
  with data_bound o c have
    "selected_sum (\<lambda>(o_id, its). sum_list (values_of its)) pedidos obits \<le> 5 * sum_list cbits"
    unfolding length_data by blast
  with f show "5 \<le> total_unidades asg pedidos" "total_unidades asg pedidos \<le> 12"
    "0 < snd (verifica_corridor_selecionado asg corredores)"
    "total_unidades asg pedidos \<le> 5 * snd (verifica_corridor_selecionado asg corredores)"
    by (simp_all add: chk)
qed

lemma data_objective:
  assumes "asg \<in> set (naive_enumeration (csp_problem pedidos corredores LB UB))"
  shows "\<exists>obj. calcular_valor_objetivo (total_unidades asg pedidos)
            (snd (verifica_corridor_selecionado asg corredores)) = Inr obj \<and> obj \<le> 5"
proof -
  let ?t = "total_unidades asg pedidos"
  let ?n = "snd (verifica_corridor_selecionado asg corredores)"
  note f = data_feasible [OF assms]
  have "of_int ?t \<le> (of_int (5 * ?n) :: real)" using f(4) by (simp only: of_int_le_iff)
  then have "of_int ?t / of_int ?n \<le> (5 :: real)"
    using f(3) by (simp add: pos_divide_le_eq)
  moreover have "0 \<le> (of_int ?t / of_int ?n :: real)" using f(1,3) by simp
  ultimately have "\<bar>of_int ?t / of_int ?n :: real\<bar> \<le> of_int 5" by simp
  with py_truediv_bounded [of ?t ?n 5] f(1,3)
  obtain r where "py_truediv ?t ?n = Inr r" "\<bar>r\<bar> \<le> 5" by auto
  with f(3) show ?thesis by (auto simp: calcular_valor_objetivo_def)
qed

lemma data_five_units:
  defines "w \<equiv> zip (variables (csp_problem pedidos corredores LB UB))
                   ([0, 1, 1, 0, 0] @ [0, 0, 0, 0, 1])"
  shows "w \<in> set (naive_enumeration (csp_problem pedidos corredores LB UB))"
    and "total_unidades w pedidos = 5"
    and "snd (verifica_corridor_selecionado w corredores) = 1"
proof -
  have len: "length [0, 1, 1, 0, 0 :: int] = length pedidos"
    "length [0, 0, 0, 0, 1 :: int] = length corredores"
    by (simp_all add: length_data)
  note chk = checks_complete [OF distinct_data len, where lb = LB and ub = UB, folded w_def]
  show t: "total_unidades w pedidos = 5"
    unfolding chk by (simp add: selected_sum_def pedidos_def values_of_def)
  show n: "snd (verifica_corridor_selecionado w corredores) = 1"
    unfolding chk by simp
  have "feasible (csp_problem pedidos corredores LB UB) w"
    unfolding w_def feasible_complete [OF distinct_data len] itens_pedidos_data
    by (simp add: selected_sum_def pedidos_def corredores_def values_of_def dict_get_def
        LB_def UB_def)
  moreover have "[0, 1, 1, 0, 0] @ [0, 0, 0, 0, 1 :: int]
      \<in> set (all_bits (length (variables (csp_problem pedidos corredores LB UB))))"
    by (simp add: set_all_bits variables_csp_problem keys_def length_data)
  ultimately show "w \<in> set (naive_enumeration (csp_problem pedidos corredores LB UB))"
    unfolding naive_enumeration_def w_def by simp
qed

lemma five_over_one: "calcular_valor_objetivo 5 1 = Inr 5"
  by (simp add: truediv_eval)

text \<open>
  C7. On the given orders and corridors with \<open>LB = 5\<close> and \<open>UB = 12\<close> the main program
  finds solutions: its results are those of all feasible assignments, each with a total
  between 5 and 12, no objective is above 5, and the objective of the best result is
  exactly 5.
\<close>

theorem data_best_objective:
  assumes "10 < fuel"
  shows "\<exists>rs best. main fuel pedidos corredores LB UB = Some (Inr (Melhor rs best))
     \<and> rs \<noteq> []
     \<and> map fst rs = naive_enumeration (csp_problem pedidos corredores LB UB)
     \<and> (\<forall>r \<in> set rs. 5 \<le> fst (snd r) \<and> fst (snd r) \<le> 12 \<and> snd (snd (snd r)) \<le> 5)
     \<and> snd (snd (snd best)) = 5"
proof -
  let ?csp = "csp_problem pedidos corredores LB UB"
  let ?N = "naive_enumeration ?csp"
  let ?h = "[[]] @ ?N"
  let ?out = "[1 ..< 1 + length ?N]"
  define w :: assignment
    where "w = zip (variables ?csp) ([0, 1, 1, 0, 0] @ [0, 0, 0, 0, 1])"
  note w = data_five_units [folded w_def]
  have yields: "map ((!) ?h) ?out = ?N"
    using nth_suffix [of "[[]]" ?N] by simp
  have "\<exists>obj. calcular_valor_objetivo (total_unidades (?h ! sol) pedidos)
             (snd (verifica_corridor_selecionado (?h ! sol) corredores)) = Inr obj"
    if "sol \<in> set ?out" for sol
  proof -
    from that have "?h ! sol \<in> set (map ((!) ?h) ?out)" by (simp only: set_map imageI)
    then have "?h ! sol \<in> set ?N" by (simp only: yields)
    from data_objective [OF this] show ?thesis by blast
  qed
  then obtain rs where loop: "resultados_loop ?h pedidos corredores LB UB ?out = Inr rs"
    using resultados_loop_total [of ?out ?h pedidos corredores LB UB] by blast
  note rs = resultados_loop_Inr [OF loop]
  from rs yields have sols: "map fst rs = ?N" by simp
  from w(1) have nonempty: "?N \<noteq> []" by auto
  with sols have "rs \<noteq> []" by auto
  then obtain best where best: "py_max (\<lambda>x. snd (snd (snd x))) rs = Inr best"
    by (cases rs) (simp_all add: py_max_def)
  have fuel: "length pedidos + length corredores < fuel"
    using assms by (simp add: length_data)
  have main: "main fuel pedidos corredores LB UB = Some (Inr (Melhor rs best))"
    unfolding main_run [OF distinct_data fuel] using nonempty loop best by simp
  have each: "5 \<le> fst (snd r) \<and> fst (snd r) \<le> 12 \<and> snd (snd (snd r)) \<le> 5"
    if "r \<in> set rs" for r
  proof -
    obtain sol tot num_corr obj where r: "r = (sol, tot, num_corr, obj)" by (cases r)
    from that have "fst r \<in> set (map fst rs)" by (simp only: set_map imageI)
    then have sol: "sol \<in> set ?N" by (simp add: sols r)
    from rs that have t: "tot = total_unidades sol pedidos"
      "num_corr = snd (verifica_corridor_selecionado sol corredores)"
      "calcular_valor_objetivo tot num_corr = Inr obj"
      by (auto simp: r)
    from data_objective [OF sol] t have "obj \<le> 5" by auto
    with data_feasible(1,2) [OF sol] t(1) show ?thesis by (simp add: r)
  qed
  from w(1) sols have "w \<in> set (map fst rs)" by simp
  then obtain r5 where r5: "r5 \<in> set rs" "fst r5 = w" by auto
  obtain tot num_corr obj where r5': "r5 = (w, tot, num_corr, obj)"
    using r5(2) by (cases r5) auto
  from rs r5(1) have "calcular_valor_objetivo (total_unidades w pedidos)
      (snd (verifica_corridor_selecionado w corredores)) = Inr obj"
    by (auto simp: r5')
  then have "obj = 5" by (simp add: w(2,3) five_over_one)
  then have five: "snd (snd (snd r5)) = 5" by (simp add: r5')
  from py_max_first_max [OF best] obtain i where
    i: "i < length rs" "rs ! i = best" "\<forall>j < length rs. snd (snd (snd (rs ! j))) \<le> snd (snd (snd best))"
    by blast
  from r5(1) obtain j where "j < length rs" "rs ! j = r5" by (auto simp: in_set_conv_nth)
  with i(3) five have "5 \<le> snd (snd (snd best))" by auto
  moreover from i(1,2) have "best \<in> set rs" by auto
  then have "snd (snd (snd best)) \<le> 5" using each by blast
  ultimately have "snd (snd (snd best)) = 5" by simp
  with main \<open>rs \<noteq> []\<close> sols each show ?thesis by blast
qed

theorem data_best_objective_witness:
  "\<exists>rs best. main 11 pedidos corredores LB UB = Some (Inr (Melhor rs best))
     \<and> rs \<noteq> [] \<and> snd (snd (snd best)) = 5"
  using data_best_objective [of 11] by auto

section \<open>The objective of a result\<close>

lemma main_results_feasible:
  assumes "main fuel peds corrs lb ub = Some (Inr (Melhor rs best))"
    and "r \<in> set rs"
  shows "feasible (csp_problem peds corrs lb ub) (fst r)"
proof -
  let ?csp = "csp_problem peds corrs lb ub"
  from main_Melhor [OF assms(1)] obtain h out where
    run: "all_solutions fuel ?csp None ([], []) = Some (Inr (h, out))"
    and loop: "resultados_loop h peds corrs lb ub out = Inr rs"
    by blast
  from run have "all_solutions fuel ?csp (Some 0) ([[]], []) = Some (Inr (h, out))"
    by (simp add: all_solutions_default)
  from all_solutions_frame [OF _ this] obtain sols where
    h: "h = [[]] @ sols" and out: "out = [] @ [length [[]::assignment] ..< length [[]::assignment] + length sols]"
    and ok: "\<forall>s \<in> set sols. goal_test ?csp s"
    by auto
  have "map ((!) h) out = sols"
    unfolding h out append_Nil by (rule nth_suffix)
  with resultados_loop_Inr [OF loop] have "map fst rs = sols" by simp
  with assms(2) have "fst r \<in> set sols" by (metis imageI set_map)
  with ok show ?thesis by (simp add: goal_test_iff)
qed

lemma py_truediv_zero: "b \<noteq> 0 \<Longrightarrow> py_truediv 0 b = Inr 0"
  by (simp add: py_truediv_def)

lemma three_corridors_enumeration:
  "naive_enumeration (csp_problem [(0, [(0, 1)])] [(0, [(0, 1)]), (1, []), (2, [])] 1 1) =
     [[(''o0'', 1), (''c0'', 1), (''c1'', 0), (''c2'', 0)],
      [(''o0'', 1), (''c0'', 1), (''c1'', 0), (''c2'', 1)],
      [(''o0'', 1), (''c0'', 1), (''c1'', 1), (''c2'', 0)],
      [(''o0'', 1), (''c0'', 1), (''c1'', 1), (''c2'', 1)]]"
  by (simp add: check_eval)

lemma three_corridors_main:
  "main 5 [(0, [(0, 1)])] [(0, [(0, 1)]), (1, []), (2, [])] 1 1 =
     Some (Inr (Melhor
       [([(''o0'', 1), (''c0'', 1), (''c1'', 0), (''c2'', 0)], 1, 1, 1),
        ([(''o0'', 1), (''c0'', 1), (''c1'', 0), (''c2'', 1)], 1, 2, 1 / 2),
        ([(''o0'', 1), (''c0'', 1), (''c1'', 1), (''c2'', 0)], 1, 2, 1 / 2),
        ([(''o0'', 1), (''c0'', 1), (''c1'', 1), (''c2'', 1)], 1, 3,
         6004799503160661 / 18014398509481984)]
       ([(''o0'', 1), (''c0'', 1), (''c1'', 0), (''c2'', 0)], 1, 1, 1)))"
proof -
  have "distinct (keys [(0::int, [(0::int, 1::int)])])"
    "distinct (keys [(0::int, [(0::int, 1::int)]), (1, []), (2, [])])"
    "length [(0::int, [(0::int, 1::int)])] + length [(0::int, [(0::int, 1::int)]), (1, []), (2, [])] < 5"
    by (simp_all add: keys_def)
  then show ?thesis
    unfolding main_run [OF \<open>distinct (keys [(0::int, [(0::int, 1::int)])])\<close>
        \<open>distinct (keys [(0::int, [(0::int, 1::int)]), (1, []), (2, [])])\<close>
        \<open>length [(0::int, [(0::int, 1::int)])] + length [(0::int, [(0::int, 1::int)]), (1, []), (2, [])] < 5\<close>]
      three_corridors_enumeration
    by (simp add: upt_rec [of 1] upt_rec [of 2] upt_rec [of 3] upt_rec [of 4] upt_rec [of 5]
        verifica_tamanho_wave_def total_unidades_def values_of_def
        verifica_corridor_selecionado_def dict_get_def var_eval truediv_eval py_max_def)
qed

text \<open>
  C5, as the program has it. For every result of the main program the corridor count is
  at least 1, the total is the sum over the selected orders of their item quantities,
  and the objective is the float quotient of the two: the quotient rounded to a 53-bit
  significand. It is the exact quotient whenever that is an integer below \<open>2^53\<close>, and
  for a count up to \<open>2^1022\<close> it differs from the exact quotient by at most the
  fraction \<open>2^-53\<close> of it.
\<close>

theorem result_objective:
  assumes "main fuel peds corrs lb ub = Some (Inr (Melhor rs best))"
    and "(sol, tot, num_corr, obj) \<in> set rs"
  shows "1 \<le> num_corr
     \<and> tot = (\<Sum>(o_id, its) \<leftarrow> peds.
                 if dict_get sol (o_var o_id) 0 = 1 then sum_list (values_of its) else 0)
     \<and> py_truediv tot num_corr = Inr obj
     \<and> (\<forall>k. tot = k * num_corr \<and> \<bar>k\<bar> < 2 ^ 53 \<longrightarrow> obj = of_int tot / of_int num_corr)
     \<and> (num_corr \<le> 2 ^ 1022 \<longrightarrow>
          \<bar>obj - of_int tot / of_int num_corr\<bar> \<le> \<bar>of_int tot / of_int num_corr\<bar> / 2 ^ 53)"
proof -
  let ?csp = "csp_problem peds corrs lb ub"
  from main_Melhor [OF assms(1)] obtain h out where
    loop: "resultados_loop h peds corrs lb ub out = Inr rs"
    by blast
  from resultados_loop_Inr [OF loop] assms(2) have
    tot: "tot = total_unidades sol peds" and
    num: "num_corr = snd (verifica_corridor_selecionado sol corrs)" and
    obj: "calcular_valor_objetivo tot num_corr = Inr obj"
    by auto
  from main_results_feasible [OF assms] have "feasible ?csp sol" by simp
  from feasible_check(4) [OF this] have pos: "0 < num_corr" by (simp add: num)
  with obj have div: "py_truediv tot num_corr = Inr obj"
    by (simp add: calcular_valor_objetivo_def)
  have exact: "obj = of_int tot / of_int num_corr" if k: "tot = k * num_corr" "\<bar>k\<bar> < 2 ^ 53" for k
  proof (cases "tot = 0")
    case True
    with div pos show ?thesis by (simp add: py_truediv_zero)
  next
    case False
    have "(of_int tot / of_int num_corr :: real) = of_int k"
      using pos by (simp add: k(1))
    then have "\<bar>of_int tot / of_int num_corr :: real\<bar> = of_int \<bar>k\<bar>" by simp
    with py_truediv_bounded [of tot num_corr "\<bar>k\<bar>"] False pos k(2) div
    show ?thesis by auto
  qed
  have near: "\<bar>obj - of_int tot / of_int num_corr\<bar> \<le> \<bar>of_int tot / of_int num_corr\<bar> / 2 ^ 53"
    if "num_corr \<le> 2 ^ 1022"
  proof (cases "tot = 0")
    case True
    with div pos show ?thesis by (simp add: py_truediv_zero)
  next
    case False
    from pos that have "num_corr \<noteq> 0" "\<bar>num_corr\<bar> \<le> 2 ^ 1022" by simp_all
    with False div show ?thesis by (intro py_truediv_error)
  qed
  from pos tot div exact near show ?thesis
    by (simp add: total_unidades_def)
qed

theorem result_objective_witness:
  "py_truediv 1 3 = Inr (6004799503160661 / 18014398509481984)
   \<and> \<bar>6004799503160661 / 18014398509481984 - of_int 1 / of_int 3\<bar>
        \<le> \<bar>of_int 1 / of_int 3 :: real\<bar> / 2 ^ 53"
proof -
  have "([(''o0'', 1), (''c0'', 1), (''c1'', 1), (''c2'', 1)], 1, 3,
         6004799503160661 / 18014398509481984)
      \<in> set [([(''o0'', 1), (''c0'', 1), (''c1'', 0), (''c2'', 0)], 1::int, 1::int, 1::real),
        ([(''o0'', 1), (''c0'', 1), (''c1'', 0), (''c2'', 1)], 1, 2, 1 / 2),
        ([(''o0'', 1), (''c0'', 1), (''c1'', 1), (''c2'', 0)], 1, 2, 1 / 2),
        ([(''o0'', 1), (''c0'', 1), (''c1'', 1), (''c2'', 1)], 1, 3,
         6004799503160661 / 18014398509481984)]"
    by simp
  from result_objective [OF three_corridors_main this]
  have "py_truediv 1 3 = Inr (6004799503160661 / 18014398509481984)"
    and "(3::int) \<le> 2 ^ 1022 \<longrightarrow>
      \<bar>6004799503160661 / 18014398509481984 - of_int 1 / of_int 3\<bar>
        \<le> \<bar>of_int 1 / of_int 3 :: real\<bar> / 2 ^ 53"
    by blast+
  moreover have "(3::int) \<le> 2 ^ 1022" by simp
  ultimately show ?thesis by blast
qed

text \<open>
  The claim C5 as stated fails on one order of one unit and three corridors: the result
  that selects all three corridors has the float \<open>1 / 3\<close> as its objective, which is not
  the rational number one third.
\<close>

theorem objective_exact_counterexample:
  "main 5 [(0, [(0, 1)])] [(0, [(0, 1)]), (1, []), (2, [])] 1 1 =
     Some (Inr (Melhor
       [([(''o0'', 1), (''c0'', 1), (''c1'', 0), (''c2'', 0)], 1, 1, 1),
        ([(''o0'', 1), (''c0'', 1), (''c1'', 0), (''c2'', 1)], 1, 2, 1 / 2),
        ([(''o0'', 1), (''c0'', 1), (''c1'', 1), (''c2'', 0)], 1, 2, 1 / 2),
        ([(''o0'', 1), (''c0'', 1), (''c1'', 1), (''c2'', 1)], 1, 3,
         6004799503160661 / 18014398509481984)]
       ([(''o0'', 1), (''c0'', 1), (''c1'', 0), (''c2'', 0)], 1, 1, 1)))
   \<and> (6004799503160661 / 18014398509481984 :: real) \<noteq> of_int 1 / of_int 3"
  using three_corridors_main by simp

end
